theory Spec2Isabelle
  imports Main "HOL-Library.Sublist"
begin

section \<open>Strings\<close>

text \<open>
  Texts are sequences of code units, modelled as \<^typ>\<open>string\<close>.  The two string
  operations of the source, \<open>String.prototype.indexOf\<close> and
  \<open>String.prototype.includes\<close>, are written out; \<open>indexOf\<close> returns \<open>None\<close> where
  the source returns \<open>-1\<close>; \<open>includes\<close> is a reserved word here, hence \<open>js_includes\<close>.
\<close>

fun indexOf :: "'a list \<Rightarrow> 'a list \<Rightarrow> nat option" where
  "indexOf [] sub = (if sub = [] then Some 0 else None)"
| "indexOf (c # cs) sub =
     (if prefix sub (c # cs) then Some 0 else map_option Suc (indexOf cs sub))"

definition js_includes :: "'a list \<Rightarrow> 'a list \<Rightarrow> bool" where
  "js_includes s sub = (indexOf s sub \<noteq> None)"

text \<open>\<open>s.substring(a)\<close> and \<open>s.substring(0, b)\<close> for indices inside the string.\<close>

definition substringFrom :: "'a list \<Rightarrow> nat \<Rightarrow> 'a list" where
  "substringFrom s a = drop a s"

definition substringTo :: "'a list \<Rightarrow> nat \<Rightarrow> 'a list" where
  "substringTo s b = take b s"

text \<open>
  The white space of the regular expression class \<open>\s\<close> and of \<open>trim()\<close>, as far
  as it lies in the 8-bit range: tab, line feed, vertical tab, form feed, carriage
  return, space and the no-break space.
\<close>

definition isSpace :: "char \<Rightarrow> bool" where
  "isSpace c = (of_char c \<in> {9, 10, 11, 12, 13, 32, 160 :: nat})"

text \<open>
  \<open>s.replace(/\s+/g, ' ')\<close>: every maximal run of white space becomes one space.
  The flag tells whether the previous code unit was white space, that is, whether
  the current run has already produced its space.
\<close>

fun collapseFrom :: "bool \<Rightarrow> string \<Rightarrow> string" where
  "collapseFrom inRun [] = []"
| "collapseFrom inRun (c # cs) =
     (if isSpace c then (if inRun then collapseFrom True cs
                         else CHR '' '' # collapseFrom True cs)
      else c # collapseFrom False cs)"

definition collapseSpaces :: "string \<Rightarrow> string" where
  "collapseSpaces s = collapseFrom False s"

definition trim :: "string \<Rightarrow> string" where
  "trim s = rev (dropWhile isSpace (rev (dropWhile isSpace s)))"

definition normalizeSpaces :: "string \<Rightarrow> string" where
  "normalizeSpaces s = trim (collapseSpaces s)"

section \<open>Changes and suggestions\<close>

text \<open>
  \<open>ChangeSchema\<close>: the fields of a change as the schema accepts them.  The kind
  (\<open>type\<close>) and the replacement (\<open>match.new\<close>) are both optional, and the schema relates
  neither to the other.
\<close>

datatype changeKind = Replace | Insert | Delete

record change =
  location :: "string option"
  section_key :: string
  description :: "string option"
  what_it_does :: "string option"
  why_changed :: string
  change_id :: "string option"
  ctype :: "changeKind option"
  match_original :: string
  match_new :: "string option"

record suggestion =
  original :: string
  suggestion :: string
  reason :: string
  changeType :: string

text \<open>
  The transformation at the end of \<open>analyzeLegalDocument\<close>: \<open>change.match.new || ''\<close>,
  then the filter \<open>s.original && s.suggestion\<close> (both strings non-empty).
\<close>

definition toSuggestion :: "change \<Rightarrow> suggestion" where
  "toSuggestion c =
     \<lparr> original = match_original c,
       suggestion = (case match_new c of None \<Rightarrow> [] | Some n \<Rightarrow> n),
       reason = why_changed c,
       changeType = section_key c \<rparr>"

definition toSuggestions :: "change list \<Rightarrow> suggestion list" where
  "toSuggestions cs =
     filter (\<lambda>s. original s \<noteq> [] \<and> suggestion s \<noteq> []) (map toSuggestion cs)"

section \<open>The markup tree\<close>

text \<open>
  A DOM node as the code inspects it: an element has a local name, a namespace URI,
  attributes and children; text nodes carry their data; comments (and every other
  node whose \<open>nodeType\<close> is not 1 and that contributes no text) carry none that
  matters.  The prefix of a qualified name such as \<open>w:del\<close> is never inspected and
  is left out.

  Identity: the code compares nodes by reference and keeps references to the
  \<open>w:t\<close> elements it extracted.  Every element of a parsed part therefore carries
  an identity \<open>Some k\<close>; an element made by \<open>createElementNS\<close> or \<open>cloneNode\<close>
  carries \<open>None\<close>: it is inserted into the tree and never looked up again.
\<close>

datatype xnode =
    Element "nat option" string "string option" "(string \<times> string) list" "xnode list"
  | TextNode string
  | Comment string

fun nodeId :: "xnode \<Rightarrow> nat option" where
  "nodeId (Element i l ns at ks) = i"
| "nodeId n = None"

fun childNodes :: "xnode \<Rightarrow> xnode list" where
  "childNodes (Element i l ns at ks) = ks"
| "childNodes n = []"

fun setChildNodes :: "xnode \<Rightarrow> xnode list \<Rightarrow> xnode" where
  "setChildNodes (Element i l ns at ks) ks' = Element i l ns at ks'"
| "setChildNodes n ks' = n"

fun isElement :: "xnode \<Rightarrow> bool" where
  "isElement (Element i l ns at ks) = True"
| "isElement n = False"

fun hasLocalName :: "string \<Rightarrow> xnode \<Rightarrow> bool" where
  "hasLocalName name (Element i l ns at ks) = (l = name)"
| "hasLocalName name n = False"

text \<open>\<open>namespaceURI?.includes('wordprocessingml')\<close>\<close>

fun inWordprocessingml :: "xnode \<Rightarrow> bool" where
  "inWordprocessingml (Element i l ns at ks) =
     (case ns of None \<Rightarrow> False | Some u \<Rightarrow> js_includes u ''wordprocessingml'')"
| "inWordprocessingml n = False"

text \<open>\<open>textContent\<close> of an element: the data of all text nodes below it, in order.\<close>

fun textContent :: "xnode \<Rightarrow> string" where
  "textContent (Element i l ns at ks) = concat (map textContent ks)"
| "textContent (TextNode s) = s"
| "textContent (Comment s) = []"

definition wml_ns :: string where
  "wml_ns = ''http://schemas.openxmlformats.org/wordprocessingml/2006/main''"

section \<open>The package and the Settings Patcher\<close>

text \<open>
  A part of the package is modelled by what the parser makes of its text: empty
  text, text without a document element, or a tree.  The parser and the serializer
  are a library; they are not modelled, and a part that is written back from a tree
  is the tree.
\<close>

datatype xmlPart = EmptyText | Unparsable | Xml xnode

record docx =
  documentXml :: "xmlPart option"
  settingsXml :: "xmlPart option"

text \<open>The literal \<open>settings.xml\<close> of \<open>enableTrackChanges\<close>, as a tree.\<close>

definition trackRevisionsElement :: xnode where
  "trackRevisionsElement = Element None ''trackRevisions'' (Some wml_ns) [] []"

definition basicSettings :: xnode where
  "basicSettings =
     Element None ''settings'' (Some wml_ns) [(''xmlns:w'', wml_ns)]
       [TextNode [CHR 0x0A, CHR '' '', CHR '' ''], trackRevisionsElement,
        TextNode [CHR 0x0A]]"

text \<open>The loop over \<open>settingsRoot.childNodes\<close>.\<close>

definition hasTrackRevisions :: "xnode list \<Rightarrow> bool" where
  "hasTrackRevisions ks =
     list_ex (\<lambda>child. isElement child \<and> hasLocalName ''trackRevisions'' child) ks"

text \<open>
  \<open>enableTrackChanges\<close>.  An absent or empty part is replaced by the literal.  A part
  without a document element makes \<open>settingsRoot.childNodes\<close> raise; the \<open>catch\<close>
  logs it and the package stays as it is.  When the flag is found, the text read is
  written back unchanged.
\<close>

definition enableTrackChanges :: "docx \<Rightarrow> docx" where
  "enableTrackChanges pkg =
     (case settingsXml pkg of
        None \<Rightarrow> pkg\<lparr>settingsXml := Some (Xml basicSettings)\<rparr>
      | Some EmptyText \<Rightarrow> pkg\<lparr>settingsXml := Some (Xml basicSettings)\<rparr>
      | Some Unparsable \<Rightarrow> pkg
      | Some (Xml settingsRoot) \<Rightarrow>
          (if \<not> isElement settingsRoot then pkg
           else if hasTrackRevisions (childNodes settingsRoot) then pkg
           else pkg\<lparr>settingsXml :=
                  Some (Xml (setChildNodes settingsRoot
                               (childNodes settingsRoot @ [trackRevisionsElement])))\<rparr>))"

text \<open>The tracking flags among the direct children of a settings root.\<close>

definition trackingFlags :: "xnode \<Rightarrow> xnode list" where
  "trackingFlags settingsRoot =
     filter (\<lambda>child. isElement child \<and> hasLocalName ''trackRevisions'' child)
       (childNodes settingsRoot)"

section \<open>The document in memory\<close>

text \<open>
  The document is its tree together with the subtrees that \<open>removeChild\<close> and
  \<open>textContent = ...\<close> have cut off: a reference into a removed run is still a
  reference to that run, whose \<open>parentNode\<close> is \<open>null\<close>.  A reference to an element
  is its identity.
\<close>

record dom =
  documentElement :: xnode
  detached :: "xnode list"

text \<open>
  The nodes that \<open>current = current.parentNode\<close> visits from the element \<open>e\<close>: the
  element itself first, the root of its tree last; empty when there is no such
  element.
\<close>

fun ancestry :: "nat \<Rightarrow> xnode \<Rightarrow> xnode list"
  and ancestryIn :: "nat \<Rightarrow> xnode list \<Rightarrow> xnode list" where
  "ancestry e (Element i l ns at ks) =
     (if i = Some e then [Element i l ns at ks]
      else (case ancestryIn e ks of [] \<Rightarrow> [] | p # ps \<Rightarrow> (p # ps) @ [Element i l ns at ks]))"
| "ancestry e (TextNode s) = []"
| "ancestry e (Comment s) = []"
| "ancestryIn e [] = []"
| "ancestryIn e (k # ks) = (case ancestry e k of [] \<Rightarrow> ancestryIn e ks | p # ps \<Rightarrow> p # ps)"

definition ancestors :: "dom \<Rightarrow> nat \<Rightarrow> xnode list" where
  "ancestors d e = ancestryIn e (documentElement d # detached d)"

definition getNode :: "dom \<Rightarrow> nat \<Rightarrow> xnode option" where
  "getNode d e = (case ancestors d e of [] \<Rightarrow> None | n # ns \<Rightarrow> Some n)"

definition childNodesOf :: "dom \<Rightarrow> nat \<Rightarrow> xnode list" where
  "childNodesOf d e = (case getNode d e of None \<Rightarrow> [] | Some n \<Rightarrow> childNodes n)"

definition parentNode :: "dom \<Rightarrow> nat \<Rightarrow> nat option" where
  "parentNode d e = (case ancestors d e of n # p # ps \<Rightarrow> nodeId p | _ \<Rightarrow> None)"

definition isRun :: "xnode \<Rightarrow> bool" where
  "isRun n = (isElement n \<and> hasLocalName ''r'' n \<and> inWordprocessingml n)"

definition isParagraph :: "xnode \<Rightarrow> bool" where
  "isParagraph n = (isElement n \<and> hasLocalName ''p'' n \<and> inWordprocessingml n)"

definition findParentRun :: "dom \<Rightarrow> nat \<Rightarrow> nat option" where
  "findParentRun d element =
     (case find isRun (ancestors d element) of None \<Rightarrow> None | Some n \<Rightarrow> nodeId n)"

definition findParentParagraph :: "dom \<Rightarrow> nat \<Rightarrow> nat option" where
  "findParentParagraph d element =
     (case find isParagraph (ancestors d element) of None \<Rightarrow> None | Some n \<Rightarrow> nodeId n)"

subsection \<open>Mutation\<close>

fun updateNode :: "nat \<Rightarrow> (xnode \<Rightarrow> xnode) \<Rightarrow> xnode \<Rightarrow> xnode" where
  "updateNode e f (Element i l ns at ks) =
     (if i = Some e then f (Element i l ns at ks)
      else Element i l ns at (map (updateNode e f) ks))"
| "updateNode e f (TextNode s) = TextNode s"
| "updateNode e f (Comment s) = Comment s"

definition mapTrees :: "(xnode \<Rightarrow> xnode) \<Rightarrow> dom \<Rightarrow> dom" where
  "mapTrees f d = \<lparr> documentElement = f (documentElement d), detached = map f (detached d) \<rparr>"

fun insertBeforeIn :: "xnode \<Rightarrow> nat \<Rightarrow> xnode list \<Rightarrow> xnode list" where
  "insertBeforeIn new r [] = []"
| "insertBeforeIn new r (k # ks) =
     (if nodeId k = Some r then new # k # ks else k # insertBeforeIn new r ks)"

fun removeIn :: "nat \<Rightarrow> xnode list \<Rightarrow> xnode list" where
  "removeIn r [] = []"
| "removeIn r (k # ks) = (if nodeId k = Some r then ks else k # removeIn r ks)"

datatype domError = NotFoundError

text \<open>
  \<open>parent.insertBefore(newChild, refChild)\<close> and \<open>parent.removeChild(child)\<close>
  raise \<open>NotFoundError\<close> when the given child is not a child of \<open>parent\<close>.  A removed
  child keeps its subtree and joins the detached ones.
\<close>

definition insertBefore :: "dom \<Rightarrow> nat \<Rightarrow> xnode \<Rightarrow> nat \<Rightarrow> domError + dom" where
  "insertBefore d parent newChild refChild =
     (if parentNode d refChild = Some parent
      then Inr (mapTrees (updateNode parent
                  (\<lambda>p. setChildNodes p (insertBeforeIn newChild refChild (childNodes p)))) d)
      else Inl NotFoundError)"

definition removeChild :: "dom \<Rightarrow> nat \<Rightarrow> nat \<Rightarrow> domError + dom" where
  "removeChild d parent child =
     (if parentNode d child = Some parent
      then (case getNode d child of
              None \<Rightarrow> Inl NotFoundError
            | Some c \<Rightarrow>
                (let d' = mapTrees (updateNode parent
                            (\<lambda>p. setChildNodes p (removeIn child (childNodes p)))) d
                 in Inr (d'\<lparr>detached := detached d' @ [c]\<rparr>)))
      else Inl NotFoundError)"

text \<open>
  \<open>element.textContent = s\<close>: all children go, and a text node with \<open>s\<close> comes
  unless \<open>s\<close> is empty.
\<close>

definition textChildren :: "string \<Rightarrow> xnode list" where
  "textChildren s = (if s = [] then [] else [TextNode s])"

definition setTextContent :: "dom \<Rightarrow> nat \<Rightarrow> string \<Rightarrow> dom" where
  "setTextContent d element s =
     (let old = filter isElement (childNodesOf d element);
          d' = mapTrees (updateNode element (\<lambda>n. setChildNodes n (textChildren s))) d
      in d'\<lparr>detached := detached d' @ old\<rparr>)"

text \<open>\<open>node.cloneNode(true)\<close>: a deep copy, of new nodes.\<close>

fun cloneNode :: "xnode \<Rightarrow> xnode" where
  "cloneNode (Element i l ns at ks) = Element None l ns at (map cloneNode ks)"
| "cloneNode (TextNode s) = TextNode s"
| "cloneNode (Comment s) = Comment s"

fun bindE :: "'e + 'a \<Rightarrow> ('a \<Rightarrow> 'e + 'b) \<Rightarrow> 'e + 'b" where
  "bindE (Inl e) f = Inl e"
| "bindE (Inr x) f = f x"

section \<open>Text extraction\<close>

record textNode =
  element :: nat
  nodeText :: string
  fullPath :: string

text \<open>
  \<open>getAllTextNodes\<close>: \<open>walkNodes\<close> returns what it pushes, in order.  A \<open>w:t\<close>
  element is kept when its text is not blank; its children are walked all the same.
  Extraction runs on a parsed tree, whose elements all have an identity.
\<close>

fun walkNodes :: "xnode \<Rightarrow> string \<Rightarrow> textNode list" where
  "walkNodes (Element i l ns at ks) path =
     (if l = ''t'' \<and> inWordprocessingml (Element i l ns at ks)
         \<and> trim (textContent (Element i l ns at ks)) \<noteq> []
      then (case i of None \<Rightarrow> []
            | Some e \<Rightarrow> [\<lparr> element = e, nodeText = textContent (Element i l ns at ks),
                          fullPath = path \<rparr>])
      else [])
     @ concat (map (\<lambda>k. walkNodes k (path @ ''/'' @ l)) ks)"
| "walkNodes (TextNode s) path = []"
| "walkNodes (Comment s) path = []"

definition getAllTextNodes :: "xnode \<Rightarrow> textNode list" where
  "getAllTextNodes root = walkNodes root []"

section \<open>Markers\<close>

text \<open>\<open>changeId.toString()\<close>: the decimal digits of a natural number.\<close>

fun natToString :: "nat \<Rightarrow> string" where
  "natToString n =
     (if n < 10 then [char_of (48 + n)]
      else natToString (n div 10) @ [char_of (48 + n mod 10)])"

declare natToString.simps [simp del]

definition cloneRun :: "dom \<Rightarrow> nat \<Rightarrow> string \<Rightarrow> xnode" where
  "cloneRun d originalRun newText =
     Element None ''r'' (Some wml_ns) []
       ((case find (\<lambda>child. isElement child \<and> hasLocalName ''rPr'' child)
                (childNodesOf d originalRun) of
           None \<Rightarrow> [] | Some child \<Rightarrow> [cloneNode child])
        @ [Element None ''t'' (Some wml_ns) [(''xml:space'', ''preserve'')]
             (textChildren newText)])"

definition createDeletionElement ::
    "dom \<Rightarrow> string \<Rightarrow> string \<Rightarrow> string \<Rightarrow> string \<Rightarrow> nat \<Rightarrow> xnode" where
  "createDeletionElement d ident author timestamp txt originalRun =
     Element None ''del'' (Some wml_ns)
       [(''w:id'', ident), (''w:author'', author), (''w:date'', timestamp)]
       [cloneRun d originalRun txt]"

definition createInsertionElement ::
    "dom \<Rightarrow> string \<Rightarrow> string \<Rightarrow> string \<Rightarrow> string \<Rightarrow> nat \<Rightarrow> xnode" where
  "createInsertionElement d ident author timestamp txt originalRun =
     Element None ''ins'' (Some wml_ns)
       [(''w:id'', ident), (''w:author'', author), (''w:date'', timestamp)]
       [cloneRun d originalRun txt]"

section \<open>The Document Mutator\<close>

text \<open>
  \<open>applySingleNodeChange\<close>.  The result is the boolean the source returns and the
  document after it, or the exception a DOM call raised.  With \<open>index = -1\<close> neither
  branch runs and the source still returns \<open>true\<close>.
\<close>

definition applySingleNodeChange ::
    "dom \<Rightarrow> nat \<Rightarrow> string \<Rightarrow> suggestion \<Rightarrow> nat \<Rightarrow> string \<Rightarrow> string
       \<Rightarrow> domError + (bool \<times> dom)" where
  "applySingleNodeChange d elem txt sg changeId author timestamp =
     (case findParentRun d elem of
        None \<Rightarrow> Inr (False, d)
      | Some parentRun \<Rightarrow>
     (case findParentParagraph d parentRun of
        None \<Rightarrow> Inr (False, d)
      | Some paragraph \<Rightarrow>
     (let delElement = createDeletionElement d (natToString changeId) author timestamp
                         (original sg) parentRun;
          insElement = createInsertionElement d (natToString (changeId + 1)) author timestamp
                         (suggestion sg) parentRun;
          index = indexOf txt (original sg)
      in if index = Some 0 \<and> length txt = length (original sg) then
           bindE (insertBefore d paragraph delElement parentRun) (\<lambda>d1.
           bindE (insertBefore d1 paragraph insElement parentRun) (\<lambda>d2.
           bindE (removeChild d2 paragraph parentRun) (\<lambda>d3.
           Inr (True, d3))))
         else (case index of
                 None \<Rightarrow> Inr (True, d)
               | Some idx \<Rightarrow>
                  (let beforeText = substringTo txt idx;
                       afterText = substringFrom txt (idx + length (original sg))
                   in bindE (if beforeText \<noteq> []
                             then insertBefore d paragraph (cloneRun d parentRun beforeText)
                                    parentRun
                             else Inr d) (\<lambda>d1.
                      bindE (insertBefore d1 paragraph delElement parentRun) (\<lambda>d2.
                      bindE (insertBefore d2 paragraph insElement parentRun) (\<lambda>d3.
                      if afterText \<noteq> [] then Inr (True, setTextContent d3 elem afterText)
                      else bindE (removeChild d3 paragraph parentRun) (\<lambda>d4.
                           Inr (True, d4))))))))))"

text \<open>
  The loop of \<open>applyMultiNodeChange\<close> that finds the nodes holding the start and
  the end of the match.  \<open>None\<close> stands for the \<open>-1\<close> of the source; a found node is
  returned with its index and offset.  When the start is set, \<open>currentPos \<le> index\<close>,
  and when the end is set, \<open>currentPos \<le> index + length\<close>, so the differences are
  those of the source.
\<close>

fun locateNodes ::
    "textNode list \<Rightarrow> nat \<Rightarrow> nat \<Rightarrow> nat \<Rightarrow> nat \<Rightarrow> (nat \<times> nat \<times> textNode) option
       \<Rightarrow> (nat \<times> nat \<times> textNode) option \<times> (nat \<times> nat \<times> textNode) option" where
  "locateNodes [] i currentPos index len start = (start, None)"
| "locateNodes (n # ns) i currentPos index len start =
     (let nodeTextLen = length (nodeText n);
          start' = (if start = None \<and> currentPos + nodeTextLen > index
                    then Some (i, index - currentPos, n) else start)
      in if currentPos + nodeTextLen \<ge> index + len
         then (start', Some (i, (index + len) - currentPos, n))
         else locateNodes ns (Suc i) (currentPos + nodeTextLen) index len start')"

text \<open>The runs of the nodes from the start node to the end node, each once.\<close>

definition collectRuns :: "dom \<Rightarrow> textNode list \<Rightarrow> nat list" where
  "collectRuns d ns =
     foldl (\<lambda>runsToRemove n.
              (case findParentRun d (element n) of
                 None \<Rightarrow> runsToRemove
               | Some run \<Rightarrow> if run \<in> set runsToRemove then runsToRemove
                             else runsToRemove @ [run]))
       [] ns"

text \<open>\<open>runsToRemove.forEach\<close>: a run is removed when its parent is the paragraph.\<close>

fun removeRuns :: "dom \<Rightarrow> nat \<Rightarrow> nat list \<Rightarrow> domError + dom" where
  "removeRuns d paragraph [] = Inr d"
| "removeRuns d paragraph (run # runs) =
     (if parentNode d run = Some paragraph
      then bindE (removeChild d paragraph run) (\<lambda>d'. removeRuns d' paragraph runs)
      else removeRuns d paragraph runs)"

definition applyMultiNodeChange ::
    "dom \<Rightarrow> textNode list \<Rightarrow> string \<Rightarrow> suggestion \<Rightarrow> nat \<Rightarrow> string \<Rightarrow> string
       \<Rightarrow> domError + (bool \<times> dom)" where
  "applyMultiNodeChange d nodeGroup combinedText sg changeId author timestamp =
     (case indexOf combinedText (original sg) of
        None \<Rightarrow> Inr (False, d)
      | Some index \<Rightarrow>
     (case locateNodes nodeGroup 0 0 index (length (original sg)) None of
        (None, e) \<Rightarrow> Inr (False, d)
      | (Some s, None) \<Rightarrow> Inr (False, d)
      | (Some (startNodeIdx, startOffset, startNode), Some (endNodeIdx, endOffset, endNode)) \<Rightarrow>
     (let firstElement = element startNode in
      case findParentRun d firstElement of
        None \<Rightarrow> Inr (False, d)
      | Some firstRun \<Rightarrow>
     (case findParentParagraph d firstRun of
        None \<Rightarrow> Inr (False, d)
      | Some paragraph \<Rightarrow>
     (let delElement = createDeletionElement d (natToString changeId) author timestamp
                         (original sg) firstRun;
          insElement = createInsertionElement d (natToString (changeId + 1)) author timestamp
                         (suggestion sg) firstRun
      in if startNodeIdx = endNodeIdx
         then applySingleNodeChange d firstElement (nodeText startNode) sg changeId author
                timestamp
         else
          (case collectRuns d (take (Suc endNodeIdx - startNodeIdx) (drop startNodeIdx nodeGroup)) of
             [] \<Rightarrow> Inr (False, d)
           | firstRunToRemove # moreRuns \<Rightarrow>
              bindE (if startOffset > 0
                     then insertBefore d paragraph
                            (cloneRun d firstRunToRemove
                               (substringTo (nodeText startNode) startOffset))
                            firstRunToRemove
                     else Inr d) (\<lambda>d1.
              bindE (insertBefore d1 paragraph delElement firstRunToRemove) (\<lambda>d2.
              bindE (insertBefore d2 paragraph insElement firstRunToRemove) (\<lambda>d3.
              bindE (if endOffset < length (nodeText endNode)
                     then insertBefore d3 paragraph
                            (cloneRun d3 (last (firstRunToRemove # moreRuns))
                               (substringFrom (nodeText endNode) endOffset))
                            firstRunToRemove
                     else Inr d3) (\<lambda>d4.
              bindE (removeRuns d4 paragraph (firstRunToRemove # moreRuns)) (\<lambda>d5.
              Inr (True, d5))))))))))))"

section \<open>The Anchor Resolver\<close>

text \<open>
  The inner loop of the multi-node search: the nodes of the window still to be
  added, the text combined so far and the group so far.
\<close>

fun growGroup ::
    "textNode list \<Rightarrow> string \<Rightarrow> textNode list \<Rightarrow> string \<Rightarrow> (textNode list \<times> string) option" where
  "growGroup [] combinedText nodeGroup anchor = None"
| "growGroup (n # ns) combinedText nodeGroup anchor =
     (let combinedText' = combinedText @ nodeText n;
          nodeGroup' = nodeGroup @ [n]
      in if js_includes combinedText' anchor then Some (nodeGroup', combinedText')
         else growGroup ns combinedText' nodeGroup' anchor)"

text \<open>
  The outer loop: the window of the start index \<open>i\<close> is
  \<open>textNodes[i .. min(i + 20, length))\<close>, the first 20 of the nodes from \<open>i\<close> on.
\<close>

fun findGroup :: "textNode list \<Rightarrow> string \<Rightarrow> (textNode list \<times> string) option" where
  "findGroup [] anchor = None"
| "findGroup (n # ns) anchor =
     (case growGroup (take 20 (n # ns)) [] [] anchor of
        Some g \<Rightarrow> Some g
      | None \<Rightarrow> findGroup ns anchor)"

definition applyTrackChangeToXml ::
    "dom \<Rightarrow> textNode list \<Rightarrow> suggestion \<Rightarrow> nat \<Rightarrow> string \<Rightarrow> string
       \<Rightarrow> domError + (bool \<times> dom)" where
  "applyTrackChangeToXml d textNodes sg changeId author timestamp =
     (let fullDocumentText = concat (map nodeText textNodes) in
      if \<not> js_includes fullDocumentText (original sg)
         \<and> \<not> js_includes (normalizeSpaces fullDocumentText) (normalizeSpaces (original sg))
      then Inr (False, d)
      else (case find (\<lambda>n. js_includes (nodeText n) (original sg)) textNodes of
              Some n \<Rightarrow>
                applySingleNodeChange d (element n) (nodeText n) sg changeId author timestamp
            | None \<Rightarrow>
               (case findGroup textNodes (original sg) of
                  Some (nodeGroup, combinedText) \<Rightarrow>
                    applyMultiNodeChange d nodeGroup combinedText sg changeId author timestamp
                | None \<Rightarrow> Inr (False, d))))"

section \<open>One conversion pass\<close>

text \<open>
  The loop of \<open>addTrackChangesToDocument\<close> over the suggestions, with its two
  counters.  An exception of a DOM call ends the pass.
\<close>

fun applySuggestions ::
    "dom \<Rightarrow> textNode list \<Rightarrow> suggestion list \<Rightarrow> nat \<Rightarrow> nat \<Rightarrow> string \<Rightarrow> string
       \<Rightarrow> domError + (dom \<times> nat \<times> nat)" where
  "applySuggestions d textNodes [] changeId appliedCount author timestamp =
     Inr (d, changeId, appliedCount)"
| "applySuggestions d textNodes (sg # sgs) changeId appliedCount author timestamp =
     (case applyTrackChangeToXml d textNodes sg changeId author timestamp of
        Inl e \<Rightarrow> Inl e
      | Inr (applied, d') \<Rightarrow>
          if applied
          then applySuggestions d' textNodes sgs (changeId + 1) (appliedCount + 1) author timestamp
          else applySuggestions d' textNodes sgs changeId appliedCount author timestamp)"

datatype requestError =
    CouldNotFindDocumentXml
  | NoDocumentElement
  | DomException domError

definition authorName :: string where
  "authorName = ''AI Legal Analyzer''"

text \<open>
  \<open>addTrackChangesToDocument\<close>.  The time stamp is read from the clock once per
  pass and is a parameter here.  A document part that is absent or empty raises
  \<open>Could not find document.xml\<close>; one without a document element makes
  \<open>walkNodes\<close> read \<open>nodeType\<close> of nothing.
\<close>

definition addTrackChangesToDocument ::
    "docx \<Rightarrow> suggestion list \<Rightarrow> string \<Rightarrow> requestError + docx" where
  "addTrackChangesToDocument pkg suggestions timestamp =
     (case documentXml pkg of
        None \<Rightarrow> Inl CouldNotFindDocumentXml
      | Some EmptyText \<Rightarrow> Inl CouldNotFindDocumentXml
      | Some Unparsable \<Rightarrow> Inl NoDocumentElement
      | Some (Xml root) \<Rightarrow>
          (let changeId = 1;
               textNodes = getAllTextNodes root
           in case applySuggestions \<lparr> documentElement = root, detached = [] \<rparr> textNodes
                     suggestions changeId 0 authorName timestamp of
                Inl e \<Rightarrow> Inl (DomException e)
              | Inr (d, c, appliedCount) \<Rightarrow>
                  Inr (enableTrackChanges
                         (pkg\<lparr>documentXml := Some (Xml (documentElement d))\<rparr>))))"

text \<open>\<open>extractTextFromXml\<close>: the texts of the extracted nodes, joined.\<close>

definition extractTextFromXml :: "docx \<Rightarrow> requestError + string" where
  "extractTextFromXml pkg =
     (case documentXml pkg of
        None \<Rightarrow> Inl CouldNotFindDocumentXml
      | Some EmptyText \<Rightarrow> Inl CouldNotFindDocumentXml
      | Some Unparsable \<Rightarrow> Inl NoDocumentElement
      | Some (Xml root) \<Rightarrow> Inr (concat (map nodeText (getAllTextNodes root))))"

text \<open>
  The request handler \<open>POST\<close>, from the uploaded package on.  The model that
  answers with the changes is a parameter: a function from the extracted text to
  the changes that passed the schema.  Without suggestions the upload is returned
  as it came.
\<close>

definition POST :: "(string \<Rightarrow> change list) \<Rightarrow> docx \<Rightarrow> string \<Rightarrow> requestError + docx" where
  "POST analyze pkg timestamp =
     (case extractTextFromXml pkg of
        Inl e \<Rightarrow> Inl e
      | Inr txt \<Rightarrow>
          (let suggestions = toSuggestions (analyze txt)
           in if suggestions = [] then Inr pkg
              else addTrackChangesToDocument pkg suggestions timestamp))"

section \<open>Observations\<close>

text \<open>The \<open>w:id\<close> values of the deletion and insertion markers, in document order.\<close>

fun markerIds :: "xnode \<Rightarrow> string list" where
  "markerIds (Element i l ns at ks) =
     (if l = ''del'' \<or> l = ''ins''
      then (case map_of at ''w:id'' of None \<Rightarrow> [] | Some v \<Rightarrow> [v]) else [])
     @ concat (map markerIds ks)"
| "markerIds (TextNode s) = []"
| "markerIds (Comment s) = []"

text \<open>The local names of the deletion and insertion markers, in document order.\<close>

fun markerKinds :: "xnode \<Rightarrow> string list" where
  "markerKinds (Element i l ns at ks) =
     (if l = ''del'' \<or> l = ''ins'' then [l] else []) @ concat (map markerKinds ks)"
| "markerKinds (TextNode s) = []"
| "markerKinds (Comment s) = []"

text \<open>The identities of the elements of a tree, in document order.\<close>

fun nodeIds :: "xnode \<Rightarrow> nat list" where
  "nodeIds (Element i l ns at ks) =
     (case i of None \<Rightarrow> [] | Some e \<Rightarrow> [e]) @ concat (map nodeIds ks)"
| "nodeIds (TextNode s) = []"
| "nodeIds (Comment s) = []"

text \<open>A document is well formed when no identity occurs twice in it.\<close>

definition wellFormed :: "dom \<Rightarrow> bool" where
  "wellFormed d = distinct (concat (map nodeIds (documentElement d # detached d)))"

section \<open>Example documents\<close>

definition wElement :: "nat \<Rightarrow> string \<Rightarrow> xnode list \<Rightarrow> xnode" where
  "wElement i l ks = Element (Some i) l (Some wml_ns) [] ks"

text \<open>
  Two paragraphs; the first run is bold, and the second paragraph has a run of
  blanks, which extraction drops.
\<close>

definition governingRun :: xnode where
  "governingRun =
     wElement 3 ''r'' [wElement 4 ''rPr'' [wElement 5 ''b'' []],
                       wElement 6 ''t'' [TextNode ''Governing law: Texas.'']]"

definition termRun :: xnode where
  "termRun = wElement 7 ''r'' [wElement 8 ''t'' [TextNode ''Term: 30 days'']]"

definition exampleDocument :: xnode where
  "exampleDocument =
     wElement 0 ''document'' [wElement 1 ''body''
       [wElement 2 ''p'' [governingRun, termRun],
        wElement 9 ''p''
          [wElement 10 ''r'' [wElement 11 ''t'' [TextNode ''Notice  period'']],
           wElement 12 ''r'' [wElement 13 ''t'' [TextNode ''  '']],
           wElement 14 ''r'' [wElement 15 ''t'' [TextNode ''applies.'']]]]]"

definition exampleDom :: dom where
  "exampleDom = \<lparr> documentElement = exampleDocument, detached = [] \<rparr>"

definition suggest :: "string \<Rightarrow> string \<Rightarrow> suggestion" where
  "suggest anchor replacement =
     \<lparr> original = anchor, suggestion = replacement, reason = ''reason'', changeType = ''key'' \<rparr>"

text \<open>One paragraph whose text is split into runs of one character each.\<close>

definition charRuns :: "nat \<Rightarrow> string \<Rightarrow> xnode list" where
  "charRuns first s =
     map (\<lambda>(k, c). wElement (first + 2 * k) ''r''
                      [wElement (first + 2 * k + 1) ''t'' [TextNode [c]]])
       (enumerate 0 s)"

definition splitDocument :: xnode where
  "splitDocument =
     wElement 0 ''document'' [wElement 1 ''body''
       [wElement 2 ''p'' (charRuns 3 ''abcdefghijklmnopqrstuvwxy'')]]"

definition splitDom :: dom where
  "splitDom = \<lparr> documentElement = splitDocument, detached = [] \<rparr>"

text \<open>A change as the schema accepts it.\<close>

definition exampleChange :: "changeKind \<Rightarrow> string \<Rightarrow> string option \<Rightarrow> change" where
  "exampleChange k anchor replacement =
     \<lparr> location = None, section_key = ''key'', description = None, what_it_does = None,
       why_changed = ''reason'', change_id = None, ctype = Some k,
       match_original = anchor, match_new = replacement \<rparr>"

text \<open>An upload with the example document and no settings part.\<close>

definition examplePackage :: docx where
  "examplePackage = \<lparr> documentXml = Some (Xml exampleDocument), settingsXml = None \<rparr>"

text \<open>The marker ids of the document part of a package.\<close>

definition documentMarkers :: "docx \<Rightarrow> string list" where
  "documentMarkers pkg =
     (case documentXml pkg of Some (Xml root) \<Rightarrow> markerIds root | _ \<Rightarrow> [])"

definition documentMarkerKinds :: "docx \<Rightarrow> string list" where
  "documentMarkerKinds pkg =
     (case documentXml pkg of Some (Xml root) \<Rightarrow> markerKinds root | _ \<Rightarrow> [])"

text \<open>The number of tracking flags of the settings part of a package.\<close>

definition flagCount :: "docx \<Rightarrow> nat" where
  "flagCount pkg =
     (case settingsXml pkg of Some (Xml root) \<Rightarrow> length (trackingFlags root) | _ \<Rightarrow> 0)"

text \<open>The settings part is absent, empty, or parses to a tree with a root element.\<close>

definition settingsReadable :: "docx \<Rightarrow> bool" where
  "settingsReadable pkg =
     (case settingsXml pkg of
        Some Unparsable \<Rightarrow> False
      | Some (Xml root) \<Rightarrow> isElement root
      | _ \<Rightarrow> True)"

text \<open>A settings part with a zoom setting, and one that holds the flag twice.\<close>

definition zoomSettings :: xnode where
  "zoomSettings =
     Element (Some 0) ''settings'' (Some wml_ns) []
       [Element (Some 1) ''zoom'' (Some wml_ns) [(''w:percent'', ''100'')] []]"

definition doubleFlagSettings :: xnode where
  "doubleFlagSettings =
     Element (Some 0) ''settings'' (Some wml_ns) []
       [Element (Some 1) ''trackRevisions'' (Some wml_ns) [] [],
        Element (Some 2) ''trackRevisions'' (Some wml_ns) [] []]"

definition zoomPackage :: docx where
  "zoomPackage = \<lparr> documentXml = Some (Xml exampleDocument), settingsXml = Some (Xml zoomSettings) \<rparr>"

definition doubleFlagPackage :: docx where
  "doubleFlagPackage =
     \<lparr> documentXml = Some (Xml exampleDocument), settingsXml = Some (Xml doubleFlagSettings) \<rparr>"

text \<open>
  A paragraph whose only run lies inside a hyperlink: the run has an ancestor
  paragraph, but its parent is the \<open>w:hyperlink\<close> element.
\<close>

definition hyperlinkDocument :: xnode where
  "hyperlinkDocument =
     wElement 0 ''document'' [wElement 1 ''body''
       [wElement 2 ''p''
          [wElement 3 ''hyperlink''
             [wElement 4 ''r'' [wElement 5 ''t'' [TextNode ''Privacy Policy'']]]]]]"

definition hyperlinkDom :: dom where
  "hyperlinkDom = \<lparr> documentElement = hyperlinkDocument, detached = [] \<rparr>"

definition hyperlinkPackage :: docx where
  "hyperlinkPackage = \<lparr> documentXml = Some (Xml hyperlinkDocument), settingsXml = None \<rparr>"

section \<open>Substrings\<close>

text \<open>
  \<open>includes\<close> is the contiguous-sublist relation \<^const>\<open>sublist\<close>, and \<open>indexOf\<close>
  returns a position at which the anchor stands.
\<close>

lemma indexOf_None_iff: "indexOf s sub = None \<longleftrightarrow> \<not> sublist sub s"
proof (induction s)
  case Nil
  then show ?case by simp
next
  case (Cons c cs)
  then show ?case by (auto simp: sublist_Cons_right)
qed

lemma js_includes_iff: "js_includes s sub \<longleftrightarrow> sublist sub s"
  by (simp add: js_includes_def indexOf_None_iff)

lemma indexOf_Some: "indexOf s sub = Some i \<Longrightarrow> take (length sub) (drop i s) = sub \<and> i + length sub \<le> length s"
proof (induction s arbitrary: i)
  case Nil
  then show ?case by (simp split: if_splits)
next
  case (Cons c cs)
  show ?case
  proof (cases "prefix sub (c # cs)")
    case True
    with Cons.prems have i: "i = 0" by simp
    from True obtain zs where "c # cs = sub @ zs" by (auto simp: prefix_def)
    with i show ?thesis by (metis append_eq_conv_conj drop0 length_append le_add1 add_0)
  next
    case False
    with Cons.prems obtain j where "indexOf cs sub = Some j" "i = Suc j" by auto
    with Cons.IH show ?thesis by simp
  qed
qed

section \<open>Suggestions\<close>

lemma toSuggestions_kind:
  "toSuggestions (map (\<lambda>c. c\<lparr>ctype := k c\<rparr>) cs) = toSuggestions cs"
proof -
  have "toSuggestion (c\<lparr>ctype := x\<rparr>) = toSuggestion c" for c x
    by (simp add: toSuggestion_def)
  then show ?thesis by (simp add: toSuggestions_def comp_def)
qed

lemma toSuggestions_append: "toSuggestions (xs @ ys) = toSuggestions xs @ toSuggestions ys"
  by (simp add: toSuggestions_def)

lemma toSuggestions_Cons: "toSuggestions (c # cs) = toSuggestions [c] @ toSuggestions cs"
  by (simp add: toSuggestions_def)

section \<open>The resolver finds nothing\<close>

lemma sublist_trans': "sublist a b \<Longrightarrow> sublist b c \<Longrightarrow> sublist a c"
  using sublist_order.order_trans by blast

lemma growGroup_None:
  "\<not> sublist anchor (combinedText @ concat (map nodeText ns)) \<Longrightarrow>
   growGroup ns combinedText nodeGroup anchor = None"
proof (induction ns arbitrary: combinedText nodeGroup)
  case Nil
  then show ?case by simp
next
  case (Cons n ns)
  have "sublist (combinedText @ nodeText n) ((combinedText @ nodeText n) @ concat (map nodeText ns))"
    by (rule sublist_append_rightI)
  with Cons.prems have "\<not> sublist anchor (combinedText @ nodeText n)"
    using sublist_trans' by fastforce
  moreover from Cons.prems have "\<not> sublist anchor ((combinedText @ nodeText n) @ concat (map nodeText ns))"
    by simp
  ultimately show ?case using Cons.IH by (simp add: js_includes_iff Let_def)
qed

lemma growGroup_length:
  "growGroup ns combinedText nodeGroup anchor = Some (g, c) \<Longrightarrow>
   length g \<le> length nodeGroup + length ns"
proof (induction ns arbitrary: combinedText nodeGroup)
  case Nil
  then show ?case by simp
next
  case (Cons n ns)
  show ?case
  proof (cases "js_includes (combinedText @ nodeText n) anchor")
    case True
    with Cons.prems show ?thesis by (auto simp: Let_def)
  next
    case False
    with Cons.prems have "growGroup ns (combinedText @ nodeText n) (nodeGroup @ [n]) anchor = Some (g, c)"
      by (simp add: Let_def)
    from Cons.IH[OF this] show ?thesis by simp
  qed
qed

lemma findGroup_length: "findGroup tns anchor = Some (g, c) \<Longrightarrow> length g \<le> 20"
proof (induction tns)
  case Nil
  then show ?case by simp
next
  case (Cons n ns)
  show ?case
  proof (cases "growGroup (take 20 (n # ns)) [] [] anchor")
    case None
    with Cons show ?thesis by simp
  next
    case (Some r)
    with Cons.prems have "growGroup (take 20 (n # ns)) [] [] anchor = Some (g, c)" by simp
    from growGroup_length[OF this] show ?thesis by simp
  qed
qed

lemma findGroup_None:
  "\<forall>i<length tns. \<not> sublist anchor (concat (map nodeText (take 20 (drop i tns)))) \<Longrightarrow>
   findGroup tns anchor = None"
proof (induction tns)
  case Nil
  then show ?case by simp
next
  case (Cons n ns)
  from Cons.prems have "\<not> sublist anchor (concat (map nodeText (take 20 (drop 0 (n # ns)))))"
    by blast
  then have g: "growGroup (take 20 (n # ns)) [] [] anchor = None"
    using growGroup_None[of anchor "[]" "take 20 (n # ns)" "[]"] by simp
  have "\<forall>i<length ns. \<not> sublist anchor (concat (map nodeText (take 20 (drop i ns))))"
  proof (intro allI impI)
    fix i assume "i < length ns"
    then have "Suc i < length (n # ns)" by simp
    with Cons.prems have "\<not> sublist anchor (concat (map nodeText (take 20 (drop (Suc i) (n # ns)))))"
      by blast
    then show "\<not> sublist anchor (concat (map nodeText (take 20 (drop i ns))))" by simp
  qed
  with Cons.IH g show ?case by simp
qed

lemma window_sublist:
  "sublist (concat (map f (take k (drop i xs)))) (concat (map f xs))"
proof -
  have "drop i xs = take k (drop i xs) @ drop k (drop i xs)"
    by (rule append_take_drop_id[symmetric])
  then have "xs = take i xs @ take k (drop i xs) @ drop k (drop i xs)"
    by (metis append_take_drop_id)
  then have "concat (map f xs) =
      concat (map f (take i xs)) @ concat (map f (take k (drop i xs))) @ concat (map f (drop k (drop i xs)))"
    by (metis concat_append map_append)
  then show ?thesis by (metis sublist_appendI)
qed

lemma member_sublist: "n \<in> set xs \<Longrightarrow> sublist (f n) (concat (map f xs))"
proof -
  assume "n \<in> set xs"
  then obtain ys zs where "xs = ys @ n # zs" by (auto dest: split_list)
  then have "concat (map f xs) = concat (map f ys) @ f n @ concat (map f zs)" by simp
  then show ?thesis by (metis sublist_appendI)
qed

lemma find_None_anchor:
  "\<forall>n\<in>set tns. \<not> sublist anchor (nodeText n) \<Longrightarrow>
   find (\<lambda>n. js_includes (nodeText n) anchor) tns = None"
  by (simp add: find_None_iff js_includes_iff)

lemma not_located:
  assumes "find (\<lambda>n. js_includes (nodeText n) (original sg)) tns = None"
    and "findGroup tns (original sg) = None"
  shows "applyTrackChangeToXml d tns sg c a t = Inr (False, d)"
  using assms by (simp add: applyTrackChangeToXml_def Let_def)


section \<open>Identities and ancestors\<close>

lemma ancestry_Element:
  "ancestry e (Element i l ns at ks) =
     (if i = Some e then [Element i l ns at ks]
      else if ancestryIn e ks = [] then []
      else ancestryIn e ks @ [Element i l ns at ks])"
  by (simp split: list.splits)

lemma ancestryIn_Cons:
  "ancestryIn e (k # ks) = (if ancestry e k = [] then ancestryIn e ks else ancestry e k)"
  by (simp split: list.splits)

lemmas ancestry_eqs = ancestry_Element ancestryIn_Cons ancestry.simps(2,3) ancestryIn.simps(1)

declare ancestry.simps(1) [simp del] ancestryIn.simps(2) [simp del]

lemma ancestry_absent:
  "e \<notin> set (nodeIds t) \<Longrightarrow> ancestry e t = []"
  "e \<notin> set (concat (map nodeIds ts)) \<Longrightarrow> ancestryIn e ts = []"
  by (induction e t and e ts rule: ancestry_ancestryIn.induct)
     (auto simp: ancestry_eqs split: option.splits)

lemma ancestry_head_id:
  "ancestry e t = n # ns \<Longrightarrow> nodeId n = Some e"
  "ancestryIn e ts = n # ns \<Longrightarrow> nodeId n = Some e"
  by (induction e t and e ts arbitrary: n ns and n ns rule: ancestry_ancestryIn.induct)
     (auto simp: ancestry_eqs neq_Nil_conv split: if_splits)

lemma ancestry_ids_subset:
  "n \<in> set (ancestry e t) \<Longrightarrow> set (nodeIds n) \<subseteq> set (nodeIds t)"
  "n \<in> set (ancestryIn e ts) \<Longrightarrow> set (nodeIds n) \<subseteq> set (concat (map nodeIds ts))"
  by (induction e t and e ts rule: ancestry_ancestryIn.induct)
     (auto simp: ancestry_eqs split: if_splits option.splits)

lemma ancestryIn_nonempty:
  "ancestryIn e ts \<noteq> [] \<Longrightarrow> \<exists>x\<in>set ts. e \<in> set (nodeIds x)"
  using ancestry_absent(2)[of e ts] by fastforce

lemma ancestry_contains:
  "n \<in> set (ancestry e t) \<Longrightarrow> e \<in> set (nodeIds n)"
  "n \<in> set (ancestryIn e ts) \<Longrightarrow> e \<in> set (nodeIds n)"
  by (induction e t and e ts rule: ancestry_ancestryIn.induct)
     (auto simp: ancestry_eqs split: if_splits option.splits dest: ancestryIn_nonempty)

lemma nodeId_in_nodeIds: "nodeId n = Some r \<Longrightarrow> r \<in> set (nodeIds n)"
  by (cases n) auto

lemma child_ids_subset: "k \<in> set (childNodes n) \<Longrightarrow> set (nodeIds k) \<subseteq> set (nodeIds n)"
  by (cases n) (auto split: option.splits)

text \<open>In a well-formed forest, a child of the node \<open>p\<close> has \<open>p\<close> as its parent.\<close>

lemma child_ancestryIn:
  assumes "distinct (concat (map nodeIds ks))" and "R \<in> set ks" and "nodeId R = Some r"
  shows "ancestryIn r ks = [R]"
  using assms
proof (induction ks)
  case Nil
  then show ?case by simp
next
  case (Cons k ks)
  show ?case
  proof (cases "R = k")
    case True
    with Cons.prems(3) have "ancestry r k = [k]" by (cases k) (auto simp: ancestry_eqs)
    with True show ?thesis by (simp add: ancestry_eqs)
  next
    case False
    with Cons.prems have in_ks: "R \<in> set ks" by simp
    with Cons.prems(3) have "r \<in> set (concat (map nodeIds ks))"
      using nodeId_in_nodeIds by fastforce
    with Cons.prems(1) have "r \<notin> set (nodeIds k)" by auto
    then have "ancestry r k = []" by (rule ancestry_absent)
    moreover from Cons.prems(1) have "distinct (concat (map nodeIds ks))" by simp
    ultimately show ?thesis using Cons.IH in_ks Cons.prems(3) by (simp add: ancestry_eqs)
  qed
qed

lemma child_ancestry:
  "distinct (nodeIds t) \<Longrightarrow> ancestry p t = P # rest \<Longrightarrow> R \<in> set (childNodes P)
     \<Longrightarrow> nodeId R = Some r \<Longrightarrow> ancestry r t = R # P # rest"
  "distinct (concat (map nodeIds ts)) \<Longrightarrow> ancestryIn p ts = P # rest \<Longrightarrow> R \<in> set (childNodes P)
     \<Longrightarrow> nodeId R = Some r \<Longrightarrow> ancestryIn r ts = R # P # rest"
proof (induction p t and p ts arbitrary: P rest and P rest rule: ancestry_ancestryIn.induct)
  case (1 e i l ns at ks)
  let ?t = "Element i l ns at ks"
  show ?case
  proof (cases "i = Some e")
    case True
    with 1 have P: "P = ?t" "rest = []" by (auto simp: ancestry_eqs)
    with 1 have Rk: "R \<in> set ks" by simp
    from 1(2) have dk: "distinct (concat (map nodeIds ks))" by (auto split: option.splits)
    have c: "ancestryIn r ks = [R]" using child_ancestryIn[OF dk Rk 1(5)] .
    from Rk 1(5) have "r \<in> set (concat (map nodeIds ks))" using nodeId_in_nodeIds by fastforce
    with 1(2) True have "i \<noteq> Some r" by auto
    with c P show ?thesis by (simp add: ancestry_eqs)
  next
    case False
    with 1(3) have ne: "ancestryIn e ks \<noteq> []" and ch: "ancestryIn e ks @ [?t] = P # rest"
      by (auto simp: ancestry_eqs split: if_splits)
    then obtain rest' where r': "ancestryIn e ks = P # rest'" "rest = rest' @ [?t]"
      by (cases "ancestryIn e ks") auto
    from 1(2) have dk: "distinct (concat (map nodeIds ks))" by (auto split: option.splits)
    from 1(1)[OF False dk r'(1) 1(4) 1(5)] have c: "ancestryIn r ks = R # P # rest'" .
    have "P \<in> set (ancestryIn e ks)" using r'(1) by simp
    then have "set (nodeIds P) \<subseteq> set (concat (map nodeIds ks))" by (rule ancestry_ids_subset)
    moreover have "r \<in> set (nodeIds P)"
      using child_ids_subset[OF 1(4)] nodeId_in_nodeIds[OF 1(5)] by blast
    ultimately have "r \<in> set (concat (map nodeIds ks))" by blast
    with 1(2) have "i \<noteq> Some r" by (auto split: option.splits)
    with c r'(2) show ?thesis by (simp add: ancestry_eqs)
  qed
next
  case (2 e s)
  then show ?case by simp
next
  case (3 e s)
  then show ?case by simp
next
  case (4 e)
  then show ?case by simp
next
  case (5 e k ks)
  from 5(3) have dk: "distinct (nodeIds k)" and dks: "distinct (concat (map nodeIds ks))"
    and disj: "set (nodeIds k) \<inter> set (concat (map nodeIds ks)) = {}" by auto
  show ?case
  proof (cases "ancestry e k = []")
    case True
    with 5(4) have a: "ancestryIn e ks = P # rest" by (simp add: ancestry_eqs)
    from 5(2)[OF True dks a 5(5) 5(6)] have c: "ancestryIn r ks = R # P # rest" .
    have "P \<in> set (ancestryIn e ks)" using a by simp
    then have "set (nodeIds P) \<subseteq> set (concat (map nodeIds ks))" by (rule ancestry_ids_subset)
    moreover have "r \<in> set (nodeIds P)"
      using child_ids_subset[OF 5(5)] nodeId_in_nodeIds[OF 5(6)] by blast
    ultimately have "r \<notin> set (nodeIds k)" using disj by blast
    then have "ancestry r k = []" by (rule ancestry_absent)
    with c show ?thesis by (simp add: ancestry_eqs)
  next
    case False
    with 5(4) have a: "ancestry e k = P # rest" by (simp add: ancestry_eqs)
    from 5(1)[OF dk a 5(5) 5(6)] have "ancestry r k = R # P # rest" .
    then show ?thesis by (simp add: ancestry_eqs)
  qed
qed

lemma chain_node_found:
  "distinct (nodeIds t) \<Longrightarrow> N \<in> set (ancestry e t) \<Longrightarrow> nodeId N = Some r
     \<Longrightarrow> \<exists>rest. ancestry r t = N # rest"
  "distinct (concat (map nodeIds ts)) \<Longrightarrow> N \<in> set (ancestryIn e ts) \<Longrightarrow> nodeId N = Some r
     \<Longrightarrow> \<exists>rest. ancestryIn r ts = N # rest"
proof (induction e t and e ts rule: ancestry_ancestryIn.induct)
  case (1 e i l ns at ks)
  let ?t = "Element i l ns at ks"
  show ?case
  proof (cases "N = ?t")
    case True
    with 1(4) show ?thesis by (simp add: ancestry_eqs)
  next
    case False
    with 1(3) have ne: "i \<noteq> Some e" and Nk: "N \<in> set (ancestryIn e ks)"
      by (auto simp: ancestry_eqs split: if_splits)
    from 1(2) have dk: "distinct (concat (map nodeIds ks))" by (auto split: option.splits)
    from 1(1)[OF ne dk Nk 1(4)] obtain rest where c: "ancestryIn r ks = N # rest" by blast
    have "set (nodeIds N) \<subseteq> set (concat (map nodeIds ks))" using Nk by (rule ancestry_ids_subset)
    then have "r \<in> set (concat (map nodeIds ks))" using nodeId_in_nodeIds[OF 1(4)] by blast
    with 1(2) have "i \<noteq> Some r" by (auto split: option.splits)
    with c show ?thesis by (simp add: ancestry_eqs)
  qed
next
  case (2 e s)
  then show ?case by simp
next
  case (3 e s)
  then show ?case by simp
next
  case (4 e)
  then show ?case by simp
next
  case (5 e k ks)
  from 5(3) have dk: "distinct (nodeIds k)" and dks: "distinct (concat (map nodeIds ks))"
    and disj: "set (nodeIds k) \<inter> set (concat (map nodeIds ks)) = {}" by auto
  show ?case
  proof (cases "ancestry e k = []")
    case True
    with 5(4) have Nk: "N \<in> set (ancestryIn e ks)" by (simp add: ancestry_eqs)
    from 5(2)[OF True dks Nk 5(5)] obtain rest where c: "ancestryIn r ks = N # rest" by blast
    have "set (nodeIds N) \<subseteq> set (concat (map nodeIds ks))" using Nk by (rule ancestry_ids_subset)
    then have "r \<notin> set (nodeIds k)" using nodeId_in_nodeIds[OF 5(5)] disj by blast
    then have "ancestry r k = []" by (rule ancestry_absent)
    with c show ?thesis by (simp add: ancestry_eqs)
  next
    case False
    with 5(4) have "N \<in> set (ancestry e k)" by (simp add: ancestry_eqs)
    from 5(1)[OF dk this 5(5)] obtain rest where "ancestry r k = N # rest" by blast
    then show ?thesis by (simp add: ancestry_eqs)
  qed
qed

section \<open>Updates\<close>

lemma updateNode_absent: "e \<notin> set (nodeIds t) \<Longrightarrow> updateNode e f t = t"
  by (induction e f t rule: updateNode.induct) (auto simp: map_idI split: option.splits)

lemma updateNode_absent_list:
  "e \<notin> set (concat (map nodeIds ts)) \<Longrightarrow> map (updateNode e f) ts = ts"
  by (induction ts) (auto simp: updateNode_absent)

lemma nodeIds_updateNode:
  "(\<And>x. nodeIds (f x) = nodeIds x) \<Longrightarrow> nodeIds (updateNode e f t) = nodeIds t"
proof (induction e f t rule: updateNode.induct)
  case (1 e f i l ns at ks)
  show ?case
  proof (cases "i = Some e")
    case True
    with 1(2) show ?thesis by simp
  next
    case False
    with 1 have "map nodeIds (map (updateNode e f) ks) = map nodeIds ks" by (auto simp: comp_def)
    with False show ?thesis by (simp del: map_map)
  qed
qed simp_all

lemma ancestry_updateNode_same:
  "(\<And>x. nodeId x = Some p \<Longrightarrow> nodeId (f x) = Some p) \<Longrightarrow>
     (ancestry p t = [] \<longrightarrow> ancestry p (updateNode p f t) = [])
     \<and> (\<forall>P rest. ancestry p t = P # rest \<longrightarrow> (\<exists>rest'. ancestry p (updateNode p f t) = f P # rest'))"
  "(\<And>x. nodeId x = Some p \<Longrightarrow> nodeId (f x) = Some p) \<Longrightarrow>
     (ancestryIn p ts = [] \<longrightarrow> ancestryIn p (map (updateNode p f) ts) = [])
     \<and> (\<forall>P rest. ancestryIn p ts = P # rest
           \<longrightarrow> (\<exists>rest'. ancestryIn p (map (updateNode p f) ts) = f P # rest'))"
proof (induction p t and p ts rule: ancestry_ancestryIn.induct)
  case (1 e i l ns at ks)
  let ?t = "Element i l ns at ks"
  show ?case
  proof (cases "i = Some e")
    case True
    then have "nodeId (f ?t) = Some e" using 1(2)[of ?t] by simp
    then have "ancestry e (f ?t) = [f ?t]" by (cases "f ?t") (auto simp: ancestry_eqs)
    with True show ?thesis by (simp add: ancestry_eqs)
  next
    case False
    with 1(1)[OF False 1(2)] show ?thesis
      by (auto simp: ancestry_eqs Cons_eq_append_conv neq_Nil_conv)
  qed
next
  case (5 e k ks)
  from 5(1)[OF 5(3)] 5(2)[OF _ 5(3)] show ?case by (auto simp: ancestry_eqs neq_Nil_conv)
qed simp_all

lemma ancestry_updateNode_below:
  "distinct (nodeIds t) \<Longrightarrow> ancestry p t = P # rest
     \<Longrightarrow> e \<in> set (concat (map nodeIds (childNodes P)))
     \<Longrightarrow> \<exists>rest'. ancestry p (updateNode e g t)
           = setChildNodes P (map (updateNode e g) (childNodes P)) # rest'"
  "distinct (concat (map nodeIds ts)) \<Longrightarrow> ancestryIn p ts = P # rest
     \<Longrightarrow> e \<in> set (concat (map nodeIds (childNodes P)))
     \<Longrightarrow> \<exists>rest'. ancestryIn p (map (updateNode e g) ts)
           = setChildNodes P (map (updateNode e g) (childNodes P)) # rest'"
proof (induction p t and p ts arbitrary: rest and rest rule: ancestry_ancestryIn.induct)
  case (1 q i l ns at ks)
  let ?t = "Element i l ns at ks"
  have eP: "e \<in> set (nodeIds P)" using 1(4) by (cases P) (auto split: option.splits)
  show ?case
  proof (cases "i = Some q")
    case True
    with 1(3) have P: "P = ?t" by (simp add: ancestry_eqs)
    with 1(4) have "e \<in> set (concat (map nodeIds ks))" by simp
    with 1(2) True have "i \<noteq> Some e" by auto
    with True P show ?thesis by (simp add: ancestry_eqs)
  next
    case False
    with 1(3) obtain rest' where r': "ancestryIn q ks = P # rest'"
      by (cases "ancestryIn q ks") (auto simp: ancestry_eqs split: if_splits)
    from 1(2) have dk: "distinct (concat (map nodeIds ks))" by (auto split: option.splits)
    from 1(1)[OF False dk r' 1(4)] obtain rest'' where
      c: "ancestryIn q (map (updateNode e g) ks)
            = setChildNodes P (map (updateNode e g) (childNodes P)) # rest''" by blast
    have "P \<in> set (ancestryIn q ks)" using r' by simp
    then have "set (nodeIds P) \<subseteq> set (concat (map nodeIds ks))" by (rule ancestry_ids_subset)
    with eP have "e \<in> set (concat (map nodeIds ks))" by blast
    with 1(2) have "i \<noteq> Some e" by (auto split: option.splits)
    with False c show ?thesis by (simp add: ancestry_eqs)
  qed
next
  case (2 q s)
  then show ?case by simp
next
  case (3 q s)
  then show ?case by simp
next
  case (4 q)
  then show ?case by simp
next
  case (5 q k ks)
  from 5(3) have dk: "distinct (nodeIds k)" and dks: "distinct (concat (map nodeIds ks))"
    and disj: "set (nodeIds k) \<inter> set (concat (map nodeIds ks)) = {}" by auto
  have eP: "e \<in> set (nodeIds P)" using 5(5) by (cases P) (auto split: option.splits)
  show ?case
  proof (cases "ancestry q k = []")
    case True
    with 5(4) have a: "ancestryIn q ks = P # rest" by (simp add: ancestry_eqs)
    from 5(2)[OF True dks a 5(5)] obtain rest' where
      c: "ancestryIn q (map (updateNode e g) ks)
            = setChildNodes P (map (updateNode e g) (childNodes P)) # rest'" by blast
    have "P \<in> set (ancestryIn q ks)" using a by simp
    then have "set (nodeIds P) \<subseteq> set (concat (map nodeIds ks))" by (rule ancestry_ids_subset)
    with eP disj have "e \<notin> set (nodeIds k)" by blast
    then have "updateNode e g k = k" by (rule updateNode_absent)
    with True c show ?thesis by (simp add: ancestry_eqs)
  next
    case False
    with 5(4) have a: "ancestry q k = P # rest" by (simp add: ancestry_eqs)
    from 5(1)[OF dk a 5(5)] obtain rest' where
      "ancestry q (updateNode e g k)
         = setChildNodes P (map (updateNode e g) (childNodes P)) # rest'" by blast
    then show ?thesis by (simp add: ancestry_eqs)
  qed
qed

lemma ancestryIn_append:
  "ancestryIn e (ts @ us) = (if ancestryIn e ts = [] then ancestryIn e us else ancestryIn e ts)"
  by (induction ts) (auto simp: ancestry_eqs)

section \<open>The document after an update\<close>

lemma ancestors_mapTrees:
  "ancestors (mapTrees f d) e = ancestryIn e (map f (documentElement d # detached d))"
  by (simp add: ancestors_def mapTrees_def)

lemma getNode_update_same:
  assumes "\<And>x. nodeId x = Some p \<Longrightarrow> nodeId (f x) = Some p"
  shows "getNode (mapTrees (updateNode p f) d) p = map_option f (getNode d p)"
proof -
  let ?ts = "documentElement d # detached d"
  from ancestry_updateNode_same(2)[of p f ?ts] assms
  have a: "ancestryIn p ?ts = [] \<longrightarrow> ancestryIn p (map (updateNode p f) ?ts) = []"
    and b: "\<forall>P rest. ancestryIn p ?ts = P # rest
              \<longrightarrow> (\<exists>rest'. ancestryIn p (map (updateNode p f) ?ts) = f P # rest')"
    by blast+
  show ?thesis
  proof (cases "ancestryIn p ?ts")
    case Nil
    with a show ?thesis by (simp add: getNode_def ancestors_mapTrees) (simp add: ancestors_def)
  next
    case (Cons P rest)
    with b obtain rest' where "ancestryIn p (map (updateNode p f) ?ts) = f P # rest'" by blast
    with Cons show ?thesis by (simp add: getNode_def ancestors_mapTrees) (simp add: ancestors_def)
  qed
qed

lemma getNode_update_below:
  assumes "wellFormed d" and "getNode d p = Some P"
    and "e \<in> set (concat (map nodeIds (childNodes P)))"
  shows "getNode (mapTrees (updateNode e g) d) p
           = Some (setChildNodes P (map (updateNode e g) (childNodes P)))"
proof -
  let ?ts = "documentElement d # detached d"
  from assms(2) obtain rest where "ancestryIn p ?ts = P # rest"
    by (auto simp: getNode_def ancestors_def split: list.splits)
  from ancestry_updateNode_below(2)[OF _ this assms(3), of g] assms(1)
  obtain rest' where "ancestryIn p (map (updateNode e g) ?ts)
           = setChildNodes P (map (updateNode e g) (childNodes P)) # rest'"
    unfolding wellFormed_def by blast
  then show ?thesis by (simp add: getNode_def ancestors_mapTrees)
qed

lemma getNode_detached_append:
  "getNode d p = Some P \<Longrightarrow> getNode (d\<lparr>detached := detached d @ xs\<rparr>) p = Some P"
proof -
  assume a: "getNode d p = Some P"
  have "ancestryIn p (documentElement d # detached d @ xs)
        = ancestryIn p ((documentElement d # detached d) @ xs)" by simp
  also have "\<dots> = ancestryIn p (documentElement d # detached d)"
    using a by (subst ancestryIn_append) (auto simp: getNode_def ancestors_def split: list.splits)
  finally show ?thesis using a by (simp add: getNode_def ancestors_def)
qed

lemma wellFormed_update:
  assumes "\<And>x. nodeIds (f x) = nodeIds x"
  shows "wellFormed (mapTrees (updateNode p f) d) = wellFormed d"
proof -
  have "map nodeIds (map (updateNode p f) ts) = map nodeIds ts" for ts
    using nodeIds_updateNode[of f p] assms by (simp add: comp_def)
  from this[of "documentElement d # detached d"] show ?thesis
    unfolding wellFormed_def mapTrees_def by (simp del: map_map)
qed

lemma parent_of_child:
  assumes "wellFormed d" and "getNode d p = Some P" and "R \<in> set (childNodes P)"
    and "nodeId R = Some r"
  shows "parentNode d r = Some p" and "getNode d r = Some R"
proof -
  let ?ts = "documentElement d # detached d"
  from assms(2) obtain rest where a: "ancestryIn p ?ts = P # rest"
    by (auto simp: getNode_def ancestors_def split: list.splits)
  then have idP: "nodeId P = Some p" by (rule ancestry_head_id)
  from child_ancestry(2)[OF _ a assms(3,4)] assms(1)
  have "ancestryIn r ?ts = R # P # rest" unfolding wellFormed_def by blast
  with idP show "parentNode d r = Some p" and "getNode d r = Some R"
    by (simp_all add: parentNode_def getNode_def ancestors_def)
qed

lemma chain_node_distinct:
  "distinct (nodeIds t) \<Longrightarrow> n \<in> set (ancestry e t) \<Longrightarrow> distinct (nodeIds n)"
  "distinct (concat (map nodeIds ts)) \<Longrightarrow> n \<in> set (ancestryIn e ts) \<Longrightarrow> distinct (nodeIds n)"
  by (induction e t and e ts rule: ancestry_ancestryIn.induct)
     (auto simp: ancestry_eqs split: if_splits option.splits)

lemma node_distinct:
  assumes "wellFormed d" and "getNode d p = Some P"
  shows "distinct (nodeIds P)"
proof -
  from assms(2) have "P \<in> set (ancestryIn p (documentElement d # detached d))"
    by (auto simp: getNode_def ancestors_def split: list.splits)
  with assms(1) show ?thesis unfolding wellFormed_def by (rule chain_node_distinct(2))
qed

lemma getNode_id: "getNode d p = Some P \<Longrightarrow> nodeId P = Some p"
  by (auto simp: getNode_def ancestors_def split: list.splits dest: ancestry_head_id(2))

lemma childNodes_set: "nodeId P = Some p \<Longrightarrow> childNodes (setChildNodes P ks) = ks"
  by (cases P) auto

lemma nodeId_set: "nodeId (setChildNodes P ks) = nodeId P"
  by (cases P) auto

lemma nodeIds_set:
  "concat (map nodeIds ks) = concat (map nodeIds (childNodes P))
     \<Longrightarrow> nodeIds (setChildNodes P ks) = nodeIds P"
  by (cases P) auto

lemma anonymous_nodeId: "nodeIds n = [] \<Longrightarrow> nodeId n = None"
  by (cases n) (auto split: option.splits)

text \<open>The first child with the identity \<open>r\<close> is the one after \<open>pre\<close>.\<close>

lemma children_before:
  assumes "distinct (nodeIds P)" and "childNodes P = pre @ R # post" and "nodeId R = Some r"
  shows "\<forall>k\<in>set pre. nodeId k \<noteq> Some r"
    and "e \<in> set (nodeIds R) \<Longrightarrow> e \<notin> set (concat (map nodeIds pre))"
    and "e \<in> set (nodeIds R) \<Longrightarrow> e \<notin> set (concat (map nodeIds post))"
proof -
  from assms(1,2) have d: "distinct (concat (map nodeIds (pre @ R # post)))"
    by (cases P) (auto split: option.splits)
  then show "e \<in> set (nodeIds R) \<Longrightarrow> e \<notin> set (concat (map nodeIds pre))"
    and "e \<in> set (nodeIds R) \<Longrightarrow> e \<notin> set (concat (map nodeIds post))"
    by auto
  from d have "r \<notin> set (concat (map nodeIds pre))"
    using nodeId_in_nodeIds[OF assms(3)] by auto
  then show "\<forall>k\<in>set pre. nodeId k \<noteq> Some r"
    using nodeId_in_nodeIds by fastforce
qed

lemma insertBeforeIn_at:
  "\<forall>k\<in>set pre. nodeId k \<noteq> Some r \<Longrightarrow> nodeId R = Some r
     \<Longrightarrow> insertBeforeIn new r (pre @ R # post) = pre @ new # R # post"
  by (induction pre) auto

lemma removeIn_at:
  "\<forall>k\<in>set pre. nodeId k \<noteq> Some r \<Longrightarrow> nodeId R = Some r
     \<Longrightarrow> removeIn r (pre @ R # post) = pre @ post"
  by (induction pre) auto

lemma nodeIds_insertBeforeIn:
  "nodeIds new = [] \<Longrightarrow> concat (map nodeIds (insertBeforeIn new r ks)) = concat (map nodeIds ks)"
  by (induction ks) auto

lemma insertBefore_at:
  assumes wf: "wellFormed d" and P: "getNode d p = Some P"
    and kids: "childNodes P = pre @ R # post" and R: "nodeId R = Some r"
    and anon: "nodeIds new = []"
  shows "\<exists>d'. insertBefore d p new r = Inr d' \<and> wellFormed d'
           \<and> getNode d' p = Some (setChildNodes P (pre @ new # R # post))"
proof -
  let ?f = "\<lambda>x. setChildNodes x (insertBeforeIn new r (childNodes x))"
  let ?d' = "mapTrees (updateNode p ?f) d"
  have "R \<in> set (childNodes P)" using kids by simp
  from parent_of_child(1)[OF wf P this R] have "parentNode d r = Some p" .
  then have 1: "insertBefore d p new r = Inr ?d'" by (simp add: insertBefore_def)
  have ids: "nodeIds (?f x) = nodeIds x" for x
    by (rule nodeIds_set) (rule nodeIds_insertBeforeIn[OF anon])
  have 2: "wellFormed ?d'" using wellFormed_update[of ?f p d] ids wf by blast
  have before: "\<forall>k\<in>set pre. nodeId k \<noteq> Some r"
    using children_before(1)[OF node_distinct[OF wf P] kids R] .
  have "getNode ?d' p = map_option ?f (getNode d p)"
    by (rule getNode_update_same) (simp add: nodeId_set)
  with P kids have 3: "getNode ?d' p = Some (setChildNodes P (pre @ new # R # post))"
    by (simp add: insertBeforeIn_at[OF before R])
  from 1 2 3 show ?thesis by blast
qed

lemma removeChild_at:
  assumes wf: "wellFormed d" and P: "getNode d p = Some P"
    and kids: "childNodes P = pre @ R # post" and R: "nodeId R = Some r"
  shows "\<exists>d'. removeChild d p r = Inr d' \<and> getNode d' p = Some (setChildNodes P (pre @ post))"
proof -
  let ?f = "\<lambda>x. setChildNodes x (removeIn r (childNodes x))"
  let ?d' = "mapTrees (updateNode p ?f) d"
  have Rin: "R \<in> set (childNodes P)" using kids by simp
  from parent_of_child[OF wf P Rin R]
  have par: "parentNode d r = Some p" and get: "getNode d r = Some R" .
  then have 1: "removeChild d p r = Inr (?d'\<lparr>detached := detached ?d' @ [R]\<rparr>)"
    by (simp add: removeChild_def Let_def)
  have before: "\<forall>k\<in>set pre. nodeId k \<noteq> Some r"
    using children_before(1)[OF node_distinct[OF wf P] kids R] .
  have "getNode ?d' p = map_option ?f (getNode d p)"
    by (rule getNode_update_same) (simp add: nodeId_set)
  with P kids have "getNode ?d' p = Some (setChildNodes P (pre @ post))"
    by (simp add: removeIn_at[OF before R])
  then have "getNode (?d'\<lparr>detached := detached ?d' @ [R]\<rparr>) p
               = Some (setChildNodes P (pre @ post))"
    by (rule getNode_detached_append)
  with 1 show ?thesis by blast
qed

lemma setTextContent_at:
  assumes wf: "wellFormed d" and P: "getNode d p = Some P"
    and kids: "childNodes P = pre @ R # post" and R: "nodeId R = Some r"
    and e: "e \<in> set (nodeIds R)"
  shows "getNode (setTextContent d e s) p
           = Some (setChildNodes P
                    (pre @ updateNode e (\<lambda>n. setChildNodes n (textChildren s)) R # post))"
proof -
  let ?g = "\<lambda>n. setChildNodes n (textChildren s)"
  let ?d' = "mapTrees (updateNode e ?g) d"
  from e kids have below: "e \<in> set (concat (map nodeIds (childNodes P)))" by simp
  have dP: "distinct (nodeIds P)" using node_distinct[OF wf P] .
  have "map (updateNode e ?g) pre = pre"
    using children_before(2)[OF dP kids R e] by (rule updateNode_absent_list)
  moreover have "map (updateNode e ?g) post = post"
    using children_before(3)[OF dP kids R e] by (rule updateNode_absent_list)
  ultimately have "map (updateNode e ?g) (childNodes P) = pre @ updateNode e ?g R # post"
    using kids by simp
  with getNode_update_below[OF wf P below, of ?g]
  have "getNode ?d' p = Some (setChildNodes P (pre @ updateNode e ?g R # post))" by simp
  then have "getNode (?d'\<lparr>detached := detached ?d' @ filter isElement (childNodesOf d e)\<rparr>) p
               = Some (setChildNodes P (pre @ updateNode e ?g R # post))"
    by (rule getNode_detached_append)
  then show ?thesis by (simp add: setTextContent_def Let_def)
qed

section \<open>Created nodes\<close>

lemma nodeIds_cloneNode: "nodeIds (cloneNode n) = []"
  by (induction n) auto

lemma nodeIds_cloneRun: "nodeIds (cloneRun d r s) = []"
  by (auto simp: cloneRun_def textChildren_def nodeIds_cloneNode split: option.splits)

lemma nodeIds_createDeletionElement: "nodeIds (createDeletionElement d i a t s r) = []"
  by (simp add: createDeletionElement_def nodeIds_cloneRun)

lemma nodeIds_createInsertionElement: "nodeIds (createInsertionElement d i a t s r) = []"
  by (simp add: createInsertionElement_def nodeIds_cloneRun)

section \<open>The rewrite of a paragraph\<close>

lemma insert_step:
  assumes "wellFormed d" and "getNode d p = Some P"
    and "childNodes P = pre @ R # post" and "nodeId R = Some r" and "nodeIds new = []"
  obtains d' P' where "insertBefore d p new r = Inr d'" and "wellFormed d'"
    and "getNode d' p = Some P'" and "childNodes P' = (pre @ [new]) @ R # post"
proof -
  from insertBefore_at[OF assms] obtain d' where
    d': "insertBefore d p new r = Inr d'" "wellFormed d'"
        "getNode d' p = Some (setChildNodes P (pre @ new # R # post))" by blast
  have "childNodes (setChildNodes P (pre @ new # R # post)) = (pre @ [new]) @ R # post"
    using childNodes_set[OF getNode_id[OF assms(2)]] by simp
  with d' that show ?thesis by blast
qed

lemma remove_step:
  assumes "wellFormed d" and "getNode d p = Some P"
    and "childNodes P = pre @ R # post" and "nodeId R = Some r"
  obtains d' where "removeChild d p r = Inr d'" and "childNodesOf d' p = pre @ post"
proof -
  from removeChild_at[OF assms] obtain d' where
    d': "removeChild d p r = Inr d'" "getNode d' p = Some (setChildNodes P (pre @ post))"
    by blast
  then have "childNodesOf d' p = pre @ post"
    using childNodes_set[OF getNode_id[OF assms(2)]] by (simp add: childNodesOf_def)
  with d' that show ?thesis by blast
qed

lemma retext_step:
  assumes "wellFormed d" and "getNode d p = Some P"
    and "childNodes P = pre @ R # post" and "nodeId R = Some r" and "e \<in> set (nodeIds R)"
  shows "childNodesOf (setTextContent d e s) p
           = pre @ updateNode e (\<lambda>n. setChildNodes n (textChildren s)) R # post"
  using setTextContent_at[OF assms, of s] childNodes_set[OF getNode_id[OF assms(2)]]
  by (simp add: childNodesOf_def)

text \<open>What the hypotheses on the run and the paragraph give.\<close>

lemma run_in_paragraph:
  assumes wf: "wellFormed d" and run: "findParentRun d e = Some r"
    and kids: "childNodesOf d p = pre @ R # post" and R: "nodeId R = Some r"
  obtains P where "getNode d p = Some P" and "childNodes P = pre @ R # post"
    and "e \<in> set (nodeIds R)"
proof -
  from kids obtain P where P: "getNode d p = Some P" "childNodes P = pre @ R # post"
    by (auto simp: childNodesOf_def split: option.splits)
  then have "R \<in> set (childNodes P)" by simp
  from parent_of_child(2)[OF wf P(1) this R] have getR: "getNode d r = Some R" .
  from run obtain R' where R': "find isRun (ancestors d e) = Some R'" "nodeId R' = Some r"
    by (auto simp: findParentRun_def split: option.splits)
  then have mem: "R' \<in> set (ancestryIn e (documentElement d # detached d))"
    by (auto simp: find_Some_iff ancestors_def)
  from chain_node_found(2)[OF _ mem R'(2)] wf have "getNode d r = Some R'"
    unfolding wellFormed_def by (auto simp: getNode_def ancestors_def)
  with getR have "R' = R" by simp
  with mem have "e \<in> set (nodeIds R)" using ancestry_contains(2) by blast
  with P that show ?thesis by blast
qed

lemma applySingleNodeChange_effect:
  assumes wf: "wellFormed d" and run: "findParentRun d e = Some r"
    and par: "findParentParagraph d r = Some p"
    and kids: "childNodesOf d p = pre @ R # post" and R: "nodeId R = Some r"
    and idx: "indexOf txt (original sg) = Some idx"
  shows "\<exists>d'. applySingleNodeChange d e txt sg c a t = Inr (True, d')
           \<and> childNodesOf d' p
               = pre
                 @ (if take idx txt \<noteq> [] then [cloneRun d r (take idx txt)] else [])
                 @ [createDeletionElement d (natToString c) a t (original sg) r,
                    createInsertionElement d (natToString (c + 1)) a t (suggestion sg) r]
                 @ (if drop (idx + length (original sg)) txt \<noteq> []
                    then [updateNode e (\<lambda>n. setChildNodes n
                            (textChildren (drop (idx + length (original sg)) txt))) R]
                    else [])
                 @ post"
proof -
  let ?del = "createDeletionElement d (natToString c) a t (original sg) r"
  let ?ins = "createInsertionElement d (natToString (c + 1)) a t (suggestion sg) r"
  let ?before = "take idx txt"
  let ?after = "drop (idx + length (original sg)) txt"
  from run_in_paragraph[OF wf run kids R] obtain P where
    P: "getNode d p = Some P" "childNodes P = pre @ R # post" and e: "e \<in> set (nodeIds R)"
    by blast
  have adel: "nodeIds ?del = []" by (rule nodeIds_createDeletionElement)
  have ains: "nodeIds ?ins = []" by (rule nodeIds_createInsertionElement)
  show ?thesis
  proof (cases "idx = 0 \<and> length txt = length (original sg)")
    case True
    then have empty: "?before = []" "?after = []" by simp_all
    from insert_step[OF wf P R adel] obtain d1 P1 where
      1: "insertBefore d p ?del r = Inr d1" "wellFormed d1" "getNode d1 p = Some P1"
         "childNodes P1 = (pre @ [?del]) @ R # post" by blast
    from insert_step[OF 1(2,3,4) R ains] obtain d2 P2 where
      2: "insertBefore d1 p ?ins r = Inr d2" "wellFormed d2" "getNode d2 p = Some P2"
         "childNodes P2 = ((pre @ [?del]) @ [?ins]) @ R # post" by blast
    from remove_step[OF 2(2,3,4) R] obtain d3 where
      3: "removeChild d2 p r = Inr d3" "childNodesOf d3 p = ((pre @ [?del]) @ [?ins]) @ post"
      by blast
    from True idx run par 1(1) 2(1) 3(1)
    have "applySingleNodeChange d e txt sg c a t = Inr (True, d3)"
      by (simp add: applySingleNodeChange_def Let_def)
    with 3(2) empty show ?thesis by simp
  next
    case False
    note partial = False
    obtain d1 P1 lead where
      1: "(if ?before \<noteq> [] then insertBefore d p (cloneRun d r ?before) r else Inr d) = Inr d1"
         "wellFormed d1" "getNode d1 p = Some P1" "childNodes P1 = (pre @ lead) @ R # post"
         and lead: "lead = (if ?before \<noteq> [] then [cloneRun d r ?before] else [])"
    proof (cases "?before \<noteq> []")
      case True
      from insert_step[OF wf P R nodeIds_cloneRun[of d r ?before]] obtain d1 P1 where
        "insertBefore d p (cloneRun d r ?before) r = Inr d1" "wellFormed d1"
        "getNode d1 p = Some P1" "childNodes P1 = (pre @ [cloneRun d r ?before]) @ R # post"
        by blast
      with True that show ?thesis by simp
    next
      case False
      then have "(if ?before \<noteq> [] then insertBefore d p (cloneRun d r ?before) r else Inr d)
                   = Inr d"
        and "[] = (if ?before \<noteq> [] then [cloneRun d r ?before] else [])"
        by (simp_all only: if_False)
      moreover have "childNodes P = (pre @ []) @ R # post" using P(2) by simp
      ultimately show ?thesis using wf P(1) that[of d P "[]"] by blast
    qed
    from insert_step[OF 1(2,3,4) R adel] obtain d2 P2 where
      2: "insertBefore d1 p ?del r = Inr d2" "wellFormed d2" "getNode d2 p = Some P2"
         "childNodes P2 = ((pre @ lead) @ [?del]) @ R # post" by blast
    from insert_step[OF 2(2,3,4) R ains] obtain d3 P3 where
      3: "insertBefore d2 p ?ins r = Inr d3" "wellFormed d3" "getNode d3 p = Some P3"
         "childNodes P3 = (((pre @ lead) @ [?del]) @ [?ins]) @ R # post" by blast
    show ?thesis
    proof (cases "?after \<noteq> []")
      case True
      from partial True idx run par 1(1) 2(1) 3(1)
      have "applySingleNodeChange d e txt sg c a t = Inr (True, setTextContent d3 e ?after)"
        by (simp add: applySingleNodeChange_def Let_def substringTo_def substringFrom_def)
      moreover from retext_step[OF 3(2,3,4) R e, of ?after] True lead
      have "childNodesOf (setTextContent d3 e ?after) p
              = pre @ lead @ [?del, ?ins]
                @ [updateNode e (\<lambda>n. setChildNodes n (textChildren ?after)) R] @ post"
        by simp
      ultimately show ?thesis using True lead by simp
    next
      case False
      note noAfter = False
      from remove_step[OF 3(2,3,4) R] obtain d4 where
        4: "removeChild d3 p r = Inr d4"
           "childNodesOf d4 p = (((pre @ lead) @ [?del]) @ [?ins]) @ post" by blast
      from partial noAfter idx run par 1(1) 2(1) 3(1) 4(1)
      have "applySingleNodeChange d e txt sg c a t = Inr (True, d4)"
        by (auto simp: applySingleNodeChange_def Let_def substringTo_def substringFrom_def)
      with 4(2) noAfter lead show ?thesis by simp
    qed
  qed
qed

section \<open>Claims about the resolver\<close>

text \<open>
  C10: the white-space-normalised check never enables an edit.  When the anchor is
  not an exact substring of the concatenated texts of the extracted nodes, the apply
  step returns not-applied and the document is the one it was given, whatever the
  normalised check says.
\<close>

theorem normalization_never_enables_edit:
  assumes "\<not> sublist (original sg) (concat (map nodeText tns))"
  shows "applyTrackChangeToXml d tns sg c a t = Inr (False, d)"
proof -
  have "\<forall>n\<in>set tns. \<not> sublist (original sg) (nodeText n)"
    using assms member_sublist[of _ tns nodeText] sublist_trans' by blast
  then have 1: "find (\<lambda>n. js_includes (nodeText n) (original sg)) tns = None"
    by (rule find_None_anchor)
  have "\<forall>i<length tns. \<not> sublist (original sg) (concat (map nodeText (take 20 (drop i tns))))"
    using assms window_sublist[of nodeText 20 _ tns] sublist_trans' by blast
  then have 2: "findGroup tns (original sg) = None" by (rule findGroup_None)
  from 1 2 show ?thesis by (rule not_located)
qed

theorem normalization_never_enables_edit_witness:
  "\<not> sublist (original (suggest ''Notice period'' ''Notice term''))
       (concat (map nodeText (getAllTextNodes exampleDocument)))
   \<and> js_includes (normalizeSpaces (concat (map nodeText (getAllTextNodes exampleDocument))))
        (normalizeSpaces (original (suggest ''Notice period'' ''Notice term'')))
   \<and> applyTrackChangeToXml exampleDom (getAllTextNodes exampleDocument)
        (suggest ''Notice period'' ''Notice term'') 1 authorName ''2024-01-01T00:00:00.000Z''
       = Inr (False, exampleDom)"
proof -
  have h: "\<not> sublist (original (suggest ''Notice period'' ''Notice term''))
       (concat (map nodeText (getAllTextNodes exampleDocument)))"
    by code_simp
  have n: "js_includes (normalizeSpaces (concat (map nodeText (getAllTextNodes exampleDocument))))
        (normalizeSpaces (original (suggest ''Notice period'' ''Notice term'')))"
    by code_simp
  from h n normalization_never_enables_edit[OF h] show ?thesis by blast
qed

text \<open>
  C4: the multi-node search combines at most 20 consecutive nodes from each start
  index.  An anchor that no window of 20 consecutive extracted nodes contains, such
  as one split over 25 runs of one character, is not found: the apply step returns
  not-applied and the document is unchanged, although the anchor stands in the
  document text.
\<close>

theorem window_of_twenty:
  "(\<forall>g combined. findGroup tns (original sg) = Some (g, combined) \<longrightarrow> length g \<le> 20)
   \<and> ((\<forall>i<length tns.
          \<not> sublist (original sg) (concat (map nodeText (take 20 (drop i tns)))))
        \<longrightarrow> applyTrackChangeToXml d tns sg c a t = Inr (False, d))"
proof (intro conjI allI impI)
  fix g combined
  assume "findGroup tns (original sg) = Some (g, combined)"
  then show "length g \<le> 20" by (rule findGroup_length)
next
  assume w: "\<forall>i<length tns.
      \<not> sublist (original sg) (concat (map nodeText (take 20 (drop i tns))))"
  have "\<forall>n\<in>set tns. \<not> sublist (original sg) (nodeText n)"
  proof
    fix n assume "n \<in> set tns"
    then obtain i where i: "i < length tns" "tns ! i = n" by (auto simp: in_set_conv_nth)
    then have "drop i tns = n # drop (Suc i) tns" using Cons_nth_drop_Suc[of i tns] by simp
    then have "n \<in> set (take 20 (drop i tns))" by simp
    then have "sublist (nodeText n) (concat (map nodeText (take 20 (drop i tns))))"
      by (rule member_sublist)
    with w i(1) show "\<not> sublist (original sg) (nodeText n)"
      using sublist_trans' by blast
  qed
  then have 1: "find (\<lambda>n. js_includes (nodeText n) (original sg)) tns = None"
    by (rule find_None_anchor)
  from w have 2: "findGroup tns (original sg) = None" by (rule findGroup_None)
  from 1 2 show "applyTrackChangeToXml d tns sg c a t = Inr (False, d)" by (rule not_located)
qed


theorem window_of_twenty_witness:
  "(case findGroup (getAllTextNodes exampleDocument) (original (suggest ''30 daysNotice'' ''x'')) of
      None \<Rightarrow> False | Some (g, combined) \<Rightarrow> length g \<le> 20)
   \<and> filter (\<lambda>i. sublist (original (suggest ''abcdefghijklmnopqrstuvwxy'' ''x''))
                    (concat (map nodeText (take 20 (drop i (getAllTextNodes splitDocument))))))
        [0..<length (getAllTextNodes splitDocument)] = []
   \<and> sublist (original (suggest ''abcdefghijklmnopqrstuvwxy'' ''x''))
        (concat (map nodeText (getAllTextNodes splitDocument)))
   \<and> applyTrackChangeToXml splitDom (getAllTextNodes splitDocument)
        (suggest ''abcdefghijklmnopqrstuvwxy'' ''x'') 1 authorName ''2024-01-01T00:00:00.000Z''
       = Inr (False, splitDom)"
proof -
  let ?sg = "suggest ''abcdefghijklmnopqrstuvwxy'' ''x''"
  let ?tns = "getAllTextNodes splitDocument"
  have "findGroup (getAllTextNodes exampleDocument)
      (original (suggest ''30 daysNotice'' ''x'')) \<noteq> None"
    by code_simp
  then obtain g0 c0 where f: "findGroup (getAllTextNodes exampleDocument)
      (original (suggest ''30 daysNotice'' ''x'')) = Some (g0, c0)"
    by auto
  have texts: "map nodeText ?tns = map (\<lambda>c. [c]) ''abcdefghijklmnopqrstuvwxy''"
    by code_simp
  have len: "length (original ?sg) = 25" by code_simp
  have short: "length (concat (map nodeText (take 20 (drop i ?tns)))) \<le> 20" for i
  proof -
    have "map nodeText (take 20 (drop i ?tns)) = take 20 (drop i (map nodeText ?tns))"
      by (simp only: take_map drop_map)
    also have "\<dots> = map (\<lambda>c. [c]) (take 20 (drop i ''abcdefghijklmnopqrstuvwxy''))"
      by (simp only: texts take_map drop_map)
    finally show ?thesis by (simp add: length_concat comp_def sum_list_triv del: take_map drop_map)
  qed
  have w: "\<forall>i<length ?tns. \<not> sublist (original ?sg)
      (concat (map nodeText (take 20 (drop i ?tns))))"
  proof (intro allI impI notI)
    fix i
    assume "sublist (original ?sg) (concat (map nodeText (take 20 (drop i ?tns))))"
    then have "length (original ?sg) \<le> length (concat (map nodeText (take 20 (drop i ?tns))))"
      by (rule sublist_length_le)
    with short[of i] len show False by simp
  qed
  have present: "sublist (original ?sg) (concat (map nodeText ?tns))"
    by code_simp
  from window_of_twenty[of "getAllTextNodes exampleDocument" "suggest ''30 daysNotice'' ''x''"] f
  have one: "length g0 \<le> 20" by blast
  from window_of_twenty[of ?tns ?sg splitDom 1 authorName "''2024-01-01T00:00:00.000Z''"] w
  have two: "applyTrackChangeToXml splitDom ?tns ?sg 1 authorName ''2024-01-01T00:00:00.000Z''
       = Inr (False, splitDom)" by blast
  from w have w': "filter (\<lambda>i. sublist (original ?sg)
      (concat (map nodeText (take 20 (drop i ?tns))))) [0..<length ?tns] = []"
    by (simp add: filter_empty_conv)
  from f one w' present two show ?thesis by simp
qed

text \<open>
  C7: an anchor that occurs in the concatenated texts neither exactly nor after
  white-space normalisation is not found: the apply step returns not-applied, the
  document is unchanged, and the pass goes on with the remaining suggestions, its
  counters as they were.
\<close>

theorem absent_anchor_is_skipped:
  assumes "\<not> sublist (original sg) (concat (map nodeText tns))"
    and "\<not> sublist (normalizeSpaces (original sg))
             (normalizeSpaces (concat (map nodeText tns)))"
  shows "applyTrackChangeToXml d tns sg c a t = Inr (False, d)
         \<and> applySuggestions d tns (sg # sgs) c n a t = applySuggestions d tns sgs c n a t"
proof -
  from assms have "applyTrackChangeToXml d tns sg c a t = Inr (False, d)"
    by (simp add: applyTrackChangeToXml_def js_includes_iff Let_def)
  then show ?thesis by simp
qed

theorem absent_anchor_is_skipped_witness:
  "\<not> sublist (original (suggest ''Arbitration'' ''Mediation''))
       (concat (map nodeText (getAllTextNodes exampleDocument)))
   \<and> \<not> sublist (normalizeSpaces (original (suggest ''Arbitration'' ''Mediation'')))
         (normalizeSpaces (concat (map nodeText (getAllTextNodes exampleDocument))))
   \<and> applyTrackChangeToXml exampleDom (getAllTextNodes exampleDocument)
        (suggest ''Arbitration'' ''Mediation'') 1 authorName ''2024-01-01T00:00:00.000Z''
       = Inr (False, exampleDom)
   \<and> applySuggestions exampleDom (getAllTextNodes exampleDocument)
        [suggest ''Arbitration'' ''Mediation'', suggest ''Texas'' ''Delaware''] 1 0 authorName
        ''2024-01-01T00:00:00.000Z''
       = applySuggestions exampleDom (getAllTextNodes exampleDocument)
        [suggest ''Texas'' ''Delaware''] 1 0 authorName ''2024-01-01T00:00:00.000Z''"
proof -
  have h1: "\<not> sublist (original (suggest ''Arbitration'' ''Mediation''))
       (concat (map nodeText (getAllTextNodes exampleDocument)))"
    by code_simp
  have h2: "\<not> sublist (normalizeSpaces (original (suggest ''Arbitration'' ''Mediation'')))
         (normalizeSpaces (concat (map nodeText (getAllTextNodes exampleDocument))))"
    by code_simp
  from h1 h2 absent_anchor_is_skipped[OF h1 h2] show ?thesis by blast
qed

text \<open>
  C8, as the code has it: a delete operation that carries replacement text is not
  rejected.  The kind of a change is dropped when the changes become suggestions,
  so the operation reaches the resolver as the pair of its anchor and its
  replacement, exactly as a replace operation with the same texts does, and the
  response of the request does not depend on the kind of any change.
\<close>

theorem delete_with_replacement_is_a_replace:
  assumes "ctype c = Some Delete" and "match_original c \<noteq> []"
    and "match_new c = Some new" and "new \<noteq> []"
  shows "toSuggestions (cs @ c # cs')
           = toSuggestions cs
             @ \<lparr> original = match_original c, suggestion = new, reason = why_changed c,
                 changeType = section_key c \<rparr> # toSuggestions cs'
         \<and> toSuggestions (cs @ c\<lparr>ctype := Some Replace\<rparr> # cs') = toSuggestions (cs @ c # cs')
         \<and> POST (\<lambda>txt. map (\<lambda>x. x\<lparr>ctype := k x\<rparr>) (analyze txt)) pkg t = POST analyze pkg t"
proof (intro conjI)
  from assms show "toSuggestions (cs @ c # cs')
           = toSuggestions cs
             @ \<lparr> original = match_original c, suggestion = new, reason = why_changed c,
                 changeType = section_key c \<rparr> # toSuggestions cs'"
    by (simp add: toSuggestions_def toSuggestion_def)
  show "toSuggestions (cs @ c\<lparr>ctype := Some Replace\<rparr> # cs') = toSuggestions (cs @ c # cs')"
    by (simp add: toSuggestions_def toSuggestion_def)
  show "POST (\<lambda>txt. map (\<lambda>x. x\<lparr>ctype := k x\<rparr>) (analyze txt)) pkg t = POST analyze pkg t"
    by (simp add: POST_def toSuggestions_kind split: sum.splits)
qed

theorem delete_with_replacement_is_a_replace_witness:
  "ctype (exampleChange Delete ''Texas'' (Some ''Delaware'')) = Some Delete
   \<and> match_original (exampleChange Delete ''Texas'' (Some ''Delaware'')) \<noteq> []
   \<and> match_new (exampleChange Delete ''Texas'' (Some ''Delaware'')) = Some ''Delaware''
   \<and> ''Delaware'' \<noteq> []
   \<and> toSuggestions ([] @ exampleChange Delete ''Texas'' (Some ''Delaware'') # [])
       = [suggest ''Texas'' ''Delaware'']
   \<and> toSuggestions [exampleChange Replace ''Texas'' (Some ''Delaware'')]
       = toSuggestions [exampleChange Delete ''Texas'' (Some ''Delaware'')]"
  using delete_with_replacement_is_a_replace
          [of "exampleChange Delete ''Texas'' (Some ''Delaware'')" "''Delaware''" "[]" "[]"]
  by (simp add: exampleChange_def suggest_def toSuggestions_def)

theorem delete_with_replacement_counterexample:
  "toSuggestions [exampleChange Delete ''Texas'' (Some ''Delaware'')]
     = [suggest ''Texas'' ''Delaware'']
   \<and> map_sum id documentMarkers
        (POST (\<lambda>txt. [exampleChange Delete ''Texas'' (Some ''Delaware'')]) examplePackage
           ''2024-01-01T00:00:00.000Z'')
     = Inr [''1'', ''2'']"
  by code_simp

section \<open>The Settings Patcher\<close>

lemma trackingFlags_nonempty_iff:
  "trackingFlags root \<noteq> [] \<longleftrightarrow> hasTrackRevisions (childNodes root)"
  by (auto simp: trackingFlags_def hasTrackRevisions_def list_ex_iff filter_empty_conv)

lemma childNodes_setChildNodes: "isElement n \<Longrightarrow> childNodes (setChildNodes n ks) = ks"
  by (cases n) simp_all

lemma isElement_setChildNodes: "isElement (setChildNodes n ks) = isElement n"
  by (cases n) simp_all

lemma trackingFlags_basic: "trackingFlags basicSettings = [trackRevisionsElement]"
  by (simp add: trackingFlags_def basicSettings_def trackRevisionsElement_def)

lemma hasTrackRevisions_append_flag: "hasTrackRevisions (ks @ [trackRevisionsElement])"
  by (simp add: hasTrackRevisions_def trackRevisionsElement_def list_ex_iff)

lemma enableTrackChanges_idem: "enableTrackChanges (enableTrackChanges pkg) = enableTrackChanges pkg"
proof (cases "settingsXml pkg")
  case None
  then show ?thesis
    by (simp add: enableTrackChanges_def basicSettings_def hasTrackRevisions_def
        trackRevisionsElement_def)
next
  case (Some part)
  show ?thesis
  proof (cases part)
    case EmptyText
    with Some show ?thesis
      by (simp add: enableTrackChanges_def basicSettings_def hasTrackRevisions_def
          trackRevisionsElement_def)
  next
    case Unparsable
    with Some show ?thesis by (simp add: enableTrackChanges_def)
  next
    case (Xml root)
    with Some show ?thesis
      by (simp add: enableTrackChanges_def isElement_setChildNodes childNodes_setChildNodes
          hasTrackRevisions_append_flag)
  qed
qed

lemma flagCount_enable:
  assumes "settingsReadable pkg"
  shows "flagCount (enableTrackChanges pkg) = max 1 (flagCount pkg)"
proof (cases "settingsXml pkg")
  case None
  then show ?thesis
    by (simp add: enableTrackChanges_def flagCount_def trackingFlags_basic)
next
  case (Some part)
  show ?thesis
  proof (cases part)
    case EmptyText
    with Some show ?thesis
      by (simp add: enableTrackChanges_def flagCount_def trackingFlags_basic)
  next
    case Unparsable
    with Some assms show ?thesis by (simp add: settingsReadable_def)
  next
    case (Xml root)
    with Some assms have el: "isElement root" by (simp add: settingsReadable_def)
    show ?thesis
    proof (cases "hasTrackRevisions (childNodes root)")
      case True
      then have "trackingFlags root \<noteq> []" by (simp add: trackingFlags_nonempty_iff)
      then have "1 \<le> length (trackingFlags root)" by (cases "trackingFlags root") simp_all
      with True Some Xml el show ?thesis
        by (simp add: enableTrackChanges_def flagCount_def max_def)
    next
      case False
      then have "trackingFlags root = []" using trackingFlags_nonempty_iff by blast
      moreover have "trackingFlags (setChildNodes root (childNodes root @ [trackRevisionsElement]))
          = trackingFlags root @ [trackRevisionsElement]"
        using el by (simp add: trackingFlags_def childNodes_setChildNodes trackRevisionsElement_def)
      ultimately show ?thesis using False Some Xml el
        by (simp add: enableTrackChanges_def flagCount_def)
    qed
  qed
qed

text \<open>
  C6, as the code has it: the Settings Patcher is idempotent, applying it twice
  gives the package that applying it once gives.  For a settings part with a root
  element every child of the root is kept, in order, and the flag is appended only
  when no child has its local name, so the part then holds \<open>max 1 n\<close> flags where
  it held \<open>n\<close>: exactly one whenever it held at most one.  Where the settings part is
  absent or empty, a minimal one is made whose only element child is the flag.  The
  document part is not touched.
\<close>

theorem settings_patcher_idempotent:
  "enableTrackChanges (enableTrackChanges pkg) = enableTrackChanges pkg
   \<and> documentXml (enableTrackChanges pkg) = documentXml pkg
   \<and> (settingsXml pkg = Some (Xml root) \<and> isElement root \<longrightarrow>
        (\<exists>root'. settingsXml (enableTrackChanges pkg) = Some (Xml root')
           \<and> childNodes root'
               = childNodes root
                 @ (if hasTrackRevisions (childNodes root) then [] else [trackRevisionsElement])
           \<and> setChildNodes root' (childNodes root) = root
           \<and> length (trackingFlags root') = max 1 (length (trackingFlags root))))
   \<and> (settingsXml pkg = None \<or> settingsXml pkg = Some EmptyText \<longrightarrow>
        settingsXml (enableTrackChanges pkg) = Some (Xml basicSettings)
        \<and> filter isElement (childNodes basicSettings) = [trackRevisionsElement])"
proof (intro conjI impI)
  show "enableTrackChanges (enableTrackChanges pkg) = enableTrackChanges pkg"
    by (rule enableTrackChanges_idem)
  show "documentXml (enableTrackChanges pkg) = documentXml pkg"
    by (simp add: enableTrackChanges_def split: option.splits xmlPart.splits)
next
  assume a: "settingsXml pkg = Some (Xml root) \<and> isElement root"
  then have r: "settingsReadable pkg" by (simp add: settingsReadable_def)
  from a obtain i l ns at ks where root: "root = Element i l ns at ks" by (cases root) auto
  let ?root' = "if hasTrackRevisions (childNodes root) then root
                else setChildNodes root (childNodes root @ [trackRevisionsElement])"
  from a have s: "settingsXml (enableTrackChanges pkg) = Some (Xml ?root')"
    by (simp add: enableTrackChanges_def)
  have c: "childNodes ?root' = childNodes root
                 @ (if hasTrackRevisions (childNodes root) then [] else [trackRevisionsElement])"
    using a by (simp add: childNodes_setChildNodes)
  have b: "setChildNodes ?root' (childNodes root) = root"
    by (simp add: root)
  from flagCount_enable[OF r] a s
  have n: "length (trackingFlags ?root') = max 1 (length (trackingFlags root))"
    by (simp add: flagCount_def)
  from s c b n
  show "\<exists>root'. settingsXml (enableTrackChanges pkg) = Some (Xml root')
           \<and> childNodes root'
               = childNodes root
                 @ (if hasTrackRevisions (childNodes root) then [] else [trackRevisionsElement])
           \<and> setChildNodes root' (childNodes root) = root
           \<and> length (trackingFlags root') = max 1 (length (trackingFlags root))"
    by blast
next
  assume "settingsXml pkg = None \<or> settingsXml pkg = Some EmptyText"
  then show "settingsXml (enableTrackChanges pkg) = Some (Xml basicSettings)"
    by (auto simp: enableTrackChanges_def)
next
  show "filter isElement (childNodes basicSettings) = [trackRevisionsElement]"
    by (simp add: basicSettings_def trackRevisionsElement_def)
qed


theorem settings_patcher_idempotent_witness:
  "settingsXml zoomPackage = Some (Xml zoomSettings) \<and> isElement zoomSettings
   \<and> enableTrackChanges (enableTrackChanges zoomPackage) = enableTrackChanges zoomPackage
   \<and> settingsXml (enableTrackChanges zoomPackage)
       = Some (Xml (setChildNodes zoomSettings (childNodes zoomSettings @ [trackRevisionsElement])))
   \<and> flagCount zoomPackage = 0 \<and> flagCount (enableTrackChanges zoomPackage) = 1
   \<and> settingsXml examplePackage = None
   \<and> settingsXml (enableTrackChanges examplePackage) = Some (Xml basicSettings)"
proof -
  have h: "settingsXml zoomPackage = Some (Xml zoomSettings) \<and> isElement zoomSettings"
    by (simp add: zoomPackage_def zoomSettings_def)
  have nf: "\<not> hasTrackRevisions (childNodes zoomSettings)"
    by (simp add: zoomSettings_def hasTrackRevisions_def)
  have z: "trackingFlags zoomSettings = []"
    by (simp add: zoomSettings_def trackingFlags_def)
  from settings_patcher_idempotent[of zoomPackage zoomSettings] h nf z
  obtain root' where r: "settingsXml (enableTrackChanges zoomPackage) = Some (Xml root')"
    "childNodes root' = childNodes zoomSettings @ [trackRevisionsElement]"
    "setChildNodes root' (childNodes zoomSettings) = zoomSettings"
    "length (trackingFlags root') = 1"
    and i: "enableTrackChanges (enableTrackChanges zoomPackage) = enableTrackChanges zoomPackage"
    by auto
  from r(2,3) have "root' = setChildNodes zoomSettings (childNodes zoomSettings @ [trackRevisionsElement])"
    by (cases root') (auto simp: zoomSettings_def)
  with r have s: "settingsXml (enableTrackChanges zoomPackage)
       = Some (Xml (setChildNodes zoomSettings (childNodes zoomSettings @ [trackRevisionsElement])))"
    and c: "flagCount (enableTrackChanges zoomPackage) = 1"
    by (simp_all add: flagCount_def)
  have e: "settingsXml examplePackage = None" by (simp add: examplePackage_def)
  with settings_patcher_idempotent[of examplePackage]
  have b: "settingsXml (enableTrackChanges examplePackage) = Some (Xml basicSettings)" by blast
  have c0: "flagCount zoomPackage = 0" using h z by (simp add: flagCount_def)
  from h i s c c0 e b show ?thesis by blast
qed

theorem settings_patcher_counterexample:
  "flagCount (enableTrackChanges (enableTrackChanges doubleFlagPackage)) = 2"
  by code_simp

section \<open>The request\<close>

text \<open>
  C9, as the code has it: when the suggestions that remain after the filter are
  none, the upload is returned as it came, and the Settings Patcher does not run.
  When there is at least one and the pass completes, the result is the Settings
  Patcher applied, once, to the package that holds the edited document; if the
  settings part of the upload is absent, empty or has a root element, the settings
  part of the result holds the tracking flag among the children of its root
  (\<open>max 1 n\<close> flags where the upload held \<open>n\<close>).
\<close>

theorem settings_patched_after_edits:
  "(extractTextFromXml pkg = Inr txt \<and> toSuggestions (analyze txt) = []
      \<longrightarrow> POST analyze pkg t = Inr pkg)
   \<and> (extractTextFromXml pkg = Inr txt \<and> toSuggestions (analyze txt) \<noteq> []
        \<and> POST analyze pkg t = Inr out \<and> settingsReadable pkg
      \<longrightarrow> (\<exists>root. out = enableTrackChanges (pkg\<lparr>documentXml := Some (Xml root)\<rparr>))
          \<and> flagCount out = max 1 (flagCount pkg) \<and> 1 \<le> flagCount out)"
proof (intro conjI impI)
  assume "extractTextFromXml pkg = Inr txt \<and> toSuggestions (analyze txt) = []"
  then show "POST analyze pkg t = Inr pkg" by (simp add: POST_def)
next
  assume a: "extractTextFromXml pkg = Inr txt \<and> toSuggestions (analyze txt) \<noteq> []
        \<and> POST analyze pkg t = Inr out \<and> settingsReadable pkg"
  then have "addTrackChangesToDocument pkg (toSuggestions (analyze txt)) t = Inr out"
    by (auto simp: POST_def Let_def)
  then obtain root where out: "out = enableTrackChanges (pkg\<lparr>documentXml := Some (Xml root)\<rparr>)"
    by (auto simp: addTrackChangesToDocument_def Let_def
        split: option.splits xmlPart.splits sum.splits)
  then show "\<exists>root. out = enableTrackChanges (pkg\<lparr>documentXml := Some (Xml root)\<rparr>)" by blast
  from a have "settingsReadable (pkg\<lparr>documentXml := Some (Xml root)\<rparr>)"
    by (simp add: settingsReadable_def)
  from flagCount_enable[OF this] out
  show n: "flagCount out = max 1 (flagCount pkg)" by (simp add: flagCount_def)
  then show "1 \<le> flagCount out" by simp
qed

theorem settings_patched_after_edits_witness:
  "extractTextFromXml examplePackage
     = Inr (concat (map nodeText (getAllTextNodes exampleDocument)))
   \<and> toSuggestions [exampleChange Replace ''Texas'' (Some ''Delaware'')] \<noteq> []
   \<and> settingsReadable examplePackage
   \<and> (case POST (\<lambda>txt. [exampleChange Replace ''Texas'' (Some ''Delaware'')]) examplePackage
              ''2024-01-01T00:00:00.000Z'' of
         Inl e \<Rightarrow> False | Inr out \<Rightarrow> flagCount out = 1)
   \<and> toSuggestions [] = []
   \<and> POST (\<lambda>txt. []) examplePackage ''2024-01-01T00:00:00.000Z'' = Inr examplePackage"
proof -
  let ?A = "\<lambda>txt::string. [exampleChange Replace ''Texas'' (Some ''Delaware'')]"
  let ?txt = "concat (map nodeText (getAllTextNodes exampleDocument))"
  have x: "extractTextFromXml examplePackage = Inr ?txt"
    by (simp add: extractTextFromXml_def examplePackage_def)
  have s: "toSuggestions [exampleChange Replace ''Texas'' (Some ''Delaware'')] \<noteq> []"
    by (simp add: toSuggestions_def toSuggestion_def exampleChange_def)
  have r: "settingsReadable examplePackage"
    by (simp add: settingsReadable_def examplePackage_def)
  have f: "flagCount examplePackage = 0" by (simp add: flagCount_def examplePackage_def)
  have "case POST ?A examplePackage ''2024-01-01T00:00:00.000Z'' of
          Inl e \<Rightarrow> False | Inr out \<Rightarrow> True"
    by code_simp
  then obtain out where p: "POST ?A examplePackage ''2024-01-01T00:00:00.000Z'' = Inr out"
    by (auto split: sum.splits)
  from settings_patched_after_edits[of examplePackage ?txt ?A "''2024-01-01T00:00:00.000Z''" out]
    x s r p f
  have c: "flagCount out = 1" by simp
  have e: "toSuggestions [] = []" by (simp add: toSuggestions_def)
  from settings_patched_after_edits[of examplePackage ?txt "\<lambda>txt. []" "''2024-01-01T00:00:00.000Z''"]
    x e
  have u: "POST (\<lambda>txt. []) examplePackage ''2024-01-01T00:00:00.000Z'' = Inr examplePackage"
    by simp
  from x s r p c e u show ?thesis by simp
qed

theorem settings_patched_after_edits_counterexample:
  "toSuggestions [] = []
   \<and> POST (\<lambda>txt. []) examplePackage ''2024-01-01T00:00:00.000Z'' = Inr examplePackage
   \<and> settingsXml examplePackage = None"
  by (simp add: toSuggestions_def POST_def extractTextFromXml_def examplePackage_def)

section \<open>Revision ids\<close>

text \<open>
  C1: the ids of the markers of one pass should all differ.  The pass starts its
  counter at 1, gives the deletion the counter and the insertion the counter plus
  one, and then advances the counter by one only: with two applied suggestions the
  markers carry the ids 1, 2, 2, 3, so the first insertion and the second deletion
  share the id 2.
\<close>

theorem revision_ids_collide:
  "map_sum id (\<lambda>(d, changeId, appliedCount). (markerIds (documentElement d), changeId, appliedCount))
     (applySuggestions exampleDom (getAllTextNodes exampleDocument)
        [suggest ''Texas'' ''Delaware'', suggest ''30 days'' ''60 days''] 1 0 authorName
        ''2024-01-01T00:00:00.000Z'')
     = Inr ([''1'', ''2'', ''2'', ''3''], 3, 2)
   \<and> map_sum id documentMarkers
       (POST (\<lambda>txt. [exampleChange Replace ''Texas'' (Some ''Delaware''),
                      exampleChange Replace ''30 days'' (Some ''60 days'')])
          examplePackage ''2024-01-01T00:00:00.000Z'')
     = Inr [''1'', ''2'', ''2'', ''3'']
   \<and> \<not> distinct [''1'', ''2'', ''2'', ''3'']"
  by code_simp

section \<open>A match over two paragraphs\<close>

text \<open>
  C3: after a multi-run rewrite no spanned run should survive.  The windows of the
  multi-node search are not confined to one paragraph, and the rewrite removes only
  the runs that are children of the paragraph of the first run.  For the anchor
  \<open>30 daysNotice\<close>, which ends the first paragraph and begins the second, the run
  \<open>Term: 30 days\<close> is replaced in the first paragraph, the remainder \<open>  period\<close>
  of the end run is inserted there too, and the end run \<open>Notice  period\<close> stays in the
  second paragraph as it was.
\<close>

theorem spanned_run_survives:
  "map_sum id (\<lambda>(applied, d). (applied,
        map textContent (childNodesOf d 2),
        map textContent (childNodesOf d 9),
        getNode d 10 = getNode exampleDom 10,
        findParentParagraph d 10))
     (applyTrackChangeToXml exampleDom (getAllTextNodes exampleDocument)
        (suggest ''30 daysNotice'' ''30 days. Notice'') 1 authorName ''2024-01-01T00:00:00.000Z'')
   = Inr (True,
        [''Governing law: Texas.'', ''Term: '', ''30 daysNotice'', ''30 days. Notice'', ''  period''],
        [''Notice  period'', ''  '', ''applies.''],
        True,
        Some 9)"
  by code_simp

section \<open>The single-run rewrite\<close>

text \<open>
  The single-run case for a run that is a child of its paragraph.  Let the
  paragraph's children be \<open>pre\<close>, the run, \<open>post\<close>, and let the anchor stand at
  offset \<open>idx\<close> of the node's text.  If the anchor is the whole text (offset 0,
  equal length), the run is replaced in place by the deletion marker and the
  insertion marker, in that order.  Otherwise the run is split: a run cloned from
  it with the text before the match, if that text is not empty; the deletion
  marker; the insertion marker; and then the run itself, retained with the text
  after the match as the new content of its text node, or removed when no text
  follows the match.
\<close>

lemma rewrite_of_child_run:
  assumes "wellFormed d" and "findParentRun d e = Some r"
    and "findParentParagraph d r = Some p"
    and "childNodesOf d p = pre @ R # post" and "nodeId R = Some r"
    and "indexOf txt (original sg) = Some idx"
  shows "\<exists>d'. applySingleNodeChange d e txt sg n a t = Inr (True, d')
           \<and> childNodesOf d' p
               = (if idx = 0 \<and> length txt = length (original sg)
                  then pre
                       @ [createDeletionElement d (natToString n) a t (original sg) r,
                          createInsertionElement d (natToString (n + 1)) a t (suggestion sg) r]
                       @ post
                  else pre
                       @ (if take idx txt = [] then [] else [cloneRun d r (take idx txt)])
                       @ [createDeletionElement d (natToString n) a t (original sg) r,
                          createInsertionElement d (natToString (n + 1)) a t (suggestion sg) r]
                       @ (if drop (idx + length (original sg)) txt = [] then []
                          else [updateNode e (\<lambda>x. setChildNodes x
                                  (textChildren (drop (idx + length (original sg)) txt))) R])
                       @ post)"
proof -
  from applySingleNodeChange_effect[OF assms, of n a t] obtain d' where
    d': "applySingleNodeChange d e txt sg n a t = Inr (True, d')"
        "childNodesOf d' p
               = pre
                 @ (if take idx txt \<noteq> [] then [cloneRun d r (take idx txt)] else [])
                 @ [createDeletionElement d (natToString n) a t (original sg) r,
                    createInsertionElement d (natToString (n + 1)) a t (suggestion sg) r]
                 @ (if drop (idx + length (original sg)) txt \<noteq> []
                    then [updateNode e (\<lambda>n. setChildNodes n
                            (textChildren (drop (idx + length (original sg)) txt))) R]
                    else [])
                 @ post"
    by blast
  show ?thesis
  proof (cases "idx = 0 \<and> length txt = length (original sg)")
    case True
    with d' show ?thesis by auto
  next
    case False
    with d' show ?thesis by (intro exI[of _ d']) (simp del: take_eq_Nil drop_eq_Nil)
  qed
qed


lemma rewrite_of_child_run_example:
  "wellFormed exampleDom
   \<and> findParentRun exampleDom 8 = Some 7 \<and> findParentParagraph exampleDom 7 = Some 2
   \<and> childNodesOf exampleDom 2 = [governingRun] @ termRun # [] \<and> nodeId termRun = Some 7
   \<and> indexOf ''Term: 30 days'' (original (suggest ''Term: 30 days'' ''Term: 60 days'')) = Some 0
   \<and> (case applySingleNodeChange exampleDom 8 ''Term: 30 days''
              (suggest ''Term: 30 days'' ''Term: 60 days'') 1 authorName ''2024-01-01T00:00:00.000Z'' of
         Inr (True, d') \<Rightarrow>
           childNodesOf d' 2
             = [governingRun,
                createDeletionElement exampleDom ''1'' authorName ''2024-01-01T00:00:00.000Z''
                  ''Term: 30 days'' 7,
                createInsertionElement exampleDom ''2'' authorName ''2024-01-01T00:00:00.000Z''
                  ''Term: 60 days'' 7]
       | _ \<Rightarrow> False)
   \<and> findParentRun exampleDom 6 = Some 3 \<and> findParentParagraph exampleDom 3 = Some 2
   \<and> childNodesOf exampleDom 2 = [] @ governingRun # [termRun] \<and> nodeId governingRun = Some 3
   \<and> indexOf ''Governing law: Texas.'' (original (suggest ''Texas'' ''Delaware'')) = Some 15
   \<and> (case applySingleNodeChange exampleDom 6 ''Governing law: Texas.''
              (suggest ''Texas'' ''Delaware'') 1 authorName ''2024-01-01T00:00:00.000Z'' of
         Inr (True, d') \<Rightarrow>
           map textContent (childNodesOf d' 2)
             = [''Governing law: '', ''Texas'', ''Delaware'', ''.'', ''Term: 30 days'']
           \<and> map nodeId (childNodesOf d' 2) = [None, None, None, Some 3, Some 7]
       | _ \<Rightarrow> False)"
proof -
  let ?t = "''2024-01-01T00:00:00.000Z''"
  have wf: "wellFormed exampleDom" by code_simp
  have r1: "findParentRun exampleDom 8 = Some 7" by code_simp
  have p1: "findParentParagraph exampleDom 7 = Some 2" by code_simp
  have k1: "childNodesOf exampleDom 2 = [governingRun] @ termRun # []" by code_simp
  have n1: "nodeId termRun = Some 7" by code_simp
  have i1: "indexOf ''Term: 30 days'' (original (suggest ''Term: 30 days'' ''Term: 60 days'')) = Some 0"
    by code_simp
  have r2: "findParentRun exampleDom 6 = Some 3" by code_simp
  have p2: "findParentParagraph exampleDom 3 = Some 2" by code_simp
  have k2: "childNodesOf exampleDom 2 = [] @ governingRun # [termRun]" by code_simp
  have n2: "nodeId governingRun = Some 3" by code_simp
  have i2: "indexOf ''Governing law: Texas.'' (original (suggest ''Texas'' ''Delaware'')) = Some 15"
    by code_simp
  have s1: "natToString (Suc 0) = ''1''" "natToString (Suc (Suc 0)) = ''2''" by code_simp+
  from rewrite_of_child_run[OF wf r1 p1 k1 n1 i1, of 1 authorName ?t] obtain d1 where
    d1: "applySingleNodeChange exampleDom 8 ''Term: 30 days''
           (suggest ''Term: 30 days'' ''Term: 60 days'') 1 authorName ?t = Inr (True, d1)"
        "childNodesOf d1 2
             = [governingRun,
                createDeletionElement exampleDom ''1'' authorName ?t ''Term: 30 days'' 7,
                createInsertionElement exampleDom ''2'' authorName ?t ''Term: 60 days'' 7]"
    by (auto simp: suggest_def s1)
  from rewrite_of_child_run[OF wf r2 p2 k2 n2 i2, of 1 authorName ?t] obtain d2 where
    d2: "applySingleNodeChange exampleDom 6 ''Governing law: Texas.''
           (suggest ''Texas'' ''Delaware'') 1 authorName ?t = Inr (True, d2)"
        "childNodesOf d2 2
             = [cloneRun exampleDom 3 ''Governing law: '',
                createDeletionElement exampleDom ''1'' authorName ?t ''Texas'' 3,
                createInsertionElement exampleDom ''2'' authorName ?t ''Delaware'' 3,
                updateNode 6 (\<lambda>x. setChildNodes x (textChildren ''.'')) governingRun,
                termRun]"
    by (auto simp: suggest_def s1)
  have t2: "map textContent
              [cloneRun exampleDom 3 ''Governing law: '',
                createDeletionElement exampleDom ''1'' authorName ?t ''Texas'' 3,
                createInsertionElement exampleDom ''2'' authorName ?t ''Delaware'' 3,
                updateNode 6 (\<lambda>x. setChildNodes x (textChildren ''.'')) governingRun,
                termRun]
            = [''Governing law: '', ''Texas'', ''Delaware'', ''.'', ''Term: 30 days'']"
    by code_simp
  have u2: "map nodeId
              [cloneRun exampleDom 3 ''Governing law: '',
                createDeletionElement exampleDom ''1'' authorName ?t ''Texas'' 3,
                createInsertionElement exampleDom ''2'' authorName ?t ''Delaware'' 3,
                updateNode 6 (\<lambda>x. setChildNodes x (textChildren ''.'')) governingRun,
                termRun]
            = [None, None, None, Some 3, Some 7]"
    by code_simp
  from wf r1 p1 k1 n1 i1 r2 p2 k2 n2 i2 d1 d2 t2 u2 show ?thesis by simp
qed

text \<open>A cloned run is a new \<open>w:r\<close> with a copy of the run properties and one \<open>w:t\<close>.\<close>

lemma cloneRun_copies_formatting:
  "cloneRun exampleDom 3 ''Governing law: ''
     = Element None ''r'' (Some wml_ns) []
         [Element None ''rPr'' (Some wml_ns) [] [Element None ''b'' (Some wml_ns) [] []],
          Element None ''t'' (Some wml_ns) [(''xml:space'', ''preserve'')]
            [TextNode ''Governing law: '']]
   \<and> createDeletionElement exampleDom ''1'' authorName ''2024-01-01T00:00:00.000Z'' ''Texas'' 3
     = Element None ''del'' (Some wml_ns)
         [(''w:id'', ''1''), (''w:author'', ''AI Legal Analyzer''),
          (''w:date'', ''2024-01-01T00:00:00.000Z'')]
         [Element None ''r'' (Some wml_ns) []
            [Element None ''rPr'' (Some wml_ns) [] [Element None ''b'' (Some wml_ns) [] []],
             Element None ''t'' (Some wml_ns) [(''xml:space'', ''preserve'')]
               [TextNode ''Texas'']]]
   \<and> updateNode 6 (\<lambda>x. setChildNodes x (textChildren ''.'')) governingRun
     = wElement 3 ''r'' [wElement 4 ''rPr'' [wElement 5 ''b'' []],
                         wElement 6 ''t'' [TextNode ''.'']]"
  by code_simp

section \<open>A run inside a hyperlink\<close>

text \<open>
  C5: in the single-run case the run should be replaced in place by the markers, or
  split around them.  The rewrite inserts the markers with
  \<open>paragraph.insertBefore(..., parentRun)\<close>, where \<open>paragraph\<close> is the nearest
  ancestor paragraph of the run; it does not ask whether the run is a child of that
  paragraph, as the multi-run path does before it removes a run.  For a run inside a
  hyperlink the run and the paragraph are both found, the first \<open>insertBefore\<close>
  raises \<open>NotFoundError\<close>, on an exact and on a partial match alike, and the request
  fails: nothing is replaced or split.
\<close>

theorem nested_run_raises:
  "findParentRun hyperlinkDom 5 = Some 4
   \<and> findParentParagraph hyperlinkDom 4 = Some 2
   \<and> parentNode hyperlinkDom 4 = Some 3
   \<and> applySingleNodeChange hyperlinkDom 5 ''Privacy Policy''
        (suggest ''Privacy Policy'' ''Privacy Notice'') 1 authorName ''2024-01-01T00:00:00.000Z''
       = Inl NotFoundError
   \<and> applySingleNodeChange hyperlinkDom 5 ''Privacy Policy''
        (suggest ''Policy'' ''Notice'') 1 authorName ''2024-01-01T00:00:00.000Z''
       = Inl NotFoundError
   \<and> applySuggestions hyperlinkDom (getAllTextNodes hyperlinkDocument)
        [suggest ''Policy'' ''Notice''] 1 0 authorName ''2024-01-01T00:00:00.000Z''
       = Inl NotFoundError
   \<and> POST (\<lambda>txt. [exampleChange Replace ''Privacy Policy'' (Some ''Privacy Notice'')])
        hyperlinkPackage ''2024-01-01T00:00:00.000Z''
       = Inl (DomException NotFoundError)"
  by code_simp

section \<open>Delete operations\<close>

text \<open>
  C2, as the code has it: the Mutator knows no kind of operation.  A delete
  operation whose replacement text is absent or empty is dropped when the changes
  become suggestions, so it never reaches the Mutator and leaves no marker.  And
  whenever the single-run rewrite is applied to a suggestion, the run being a child
  of its paragraph, the paragraph receives the deletion marker, whose run carries
  the anchor text, immediately followed by an insertion marker, whose run carries
  the replacement text.
\<close>

theorem markers_come_in_pairs:
  "(ctype c = Some Delete \<and> (match_new c = None \<or> match_new c = Some [])
      \<longrightarrow> toSuggestions (cs @ c # cs') = toSuggestions (cs @ cs'))
   \<and> (wellFormed d \<and> findParentRun d e = Some r \<and> findParentParagraph d r = Some p
        \<and> childNodesOf d p = pre @ R # post \<and> nodeId R = Some r
        \<and> indexOf txt (original sg) = Some idx
      \<longrightarrow> (\<exists>d' before after.
             applySingleNodeChange d e txt sg n a t = Inr (True, d')
             \<and> childNodesOf d' p
                 = before
                   @ [Element None ''del'' (Some wml_ns)
                        [(''w:id'', natToString n), (''w:author'', a), (''w:date'', t)]
                        [cloneRun d r (original sg)],
                      Element None ''ins'' (Some wml_ns)
                        [(''w:id'', natToString (n + 1)), (''w:author'', a), (''w:date'', t)]
                        [cloneRun d r (suggestion sg)]]
                   @ after))"
proof (intro conjI impI)
  assume "ctype c = Some Delete \<and> (match_new c = None \<or> match_new c = Some [])"
  then show "toSuggestions (cs @ c # cs') = toSuggestions (cs @ cs')"
    by (auto simp: toSuggestions_def toSuggestion_def)
next
  assume h: "wellFormed d \<and> findParentRun d e = Some r \<and> findParentParagraph d r = Some p
        \<and> childNodesOf d p = pre @ R # post \<and> nodeId R = Some r
        \<and> indexOf txt (original sg) = Some idx"
  let ?lead = "if take idx txt \<noteq> [] then [cloneRun d r (take idx txt)] else []"
  let ?trail = "if drop (idx + length (original sg)) txt \<noteq> []
                    then [updateNode e (\<lambda>n. setChildNodes n
                            (textChildren (drop (idx + length (original sg)) txt))) R]
                    else []"
  from h have h1: "wellFormed d" and h2: "findParentRun d e = Some r"
    and h3: "findParentParagraph d r = Some p" and h4: "childNodesOf d p = pre @ R # post"
    and h5: "nodeId R = Some r" and h6: "indexOf txt (original sg) = Some idx"
    by blast+
  from applySingleNodeChange_effect[OF h1 h2 h3 h4 h5 h6] obtain d' where
    d': "applySingleNodeChange d e txt sg n a t = Inr (True, d')"
        "childNodesOf d' p
               = pre @ ?lead
                 @ [createDeletionElement d (natToString n) a t (original sg) r,
                    createInsertionElement d (natToString (n + 1)) a t (suggestion sg) r]
                 @ ?trail @ post"
    by blast
  from d'(2) have "childNodesOf d' p
                 = (pre @ ?lead)
                   @ [Element None ''del'' (Some wml_ns)
                        [(''w:id'', natToString n), (''w:author'', a), (''w:date'', t)]
                        [cloneRun d r (original sg)],
                      Element None ''ins'' (Some wml_ns)
                        [(''w:id'', natToString (n + 1)), (''w:author'', a), (''w:date'', t)]
                        [cloneRun d r (suggestion sg)]]
                   @ (?trail @ post)"
    by (simp add: createDeletionElement_def createInsertionElement_def)
  with d'(1) show "\<exists>d' before after.
             applySingleNodeChange d e txt sg n a t = Inr (True, d')
             \<and> childNodesOf d' p
                 = before
                   @ [Element None ''del'' (Some wml_ns)
                        [(''w:id'', natToString n), (''w:author'', a), (''w:date'', t)]
                        [cloneRun d r (original sg)],
                      Element None ''ins'' (Some wml_ns)
                        [(''w:id'', natToString (n + 1)), (''w:author'', a), (''w:date'', t)]
                        [cloneRun d r (suggestion sg)]]
                   @ after"
    by blast
qed

theorem markers_come_in_pairs_witness:
  "ctype (exampleChange Delete ''Texas'' None) = Some Delete
   \<and> match_new (exampleChange Delete ''Texas'' None) = None
   \<and> toSuggestions ([] @ exampleChange Delete ''Texas'' None
                       # [exampleChange Replace ''30 days'' (Some ''60 days'')])
       = [suggest ''30 days'' ''60 days'']
   \<and> wellFormed exampleDom
   \<and> findParentRun exampleDom 6 = Some 3 \<and> findParentParagraph exampleDom 3 = Some 2
   \<and> childNodesOf exampleDom 2 = [] @ governingRun # [termRun] \<and> nodeId governingRun = Some 3
   \<and> indexOf ''Governing law: Texas.'' (original (suggest ''Texas'' ''Delaware'')) = Some 15
   \<and> (case applySingleNodeChange exampleDom 6 ''Governing law: Texas.''
              (suggest ''Texas'' ''Delaware'') 1 authorName ''2024-01-01T00:00:00.000Z'' of
         Inr (True, d') \<Rightarrow>
           sublist
             [Element None ''del'' (Some wml_ns)
                [(''w:id'', ''1''), (''w:author'', authorName),
                 (''w:date'', ''2024-01-01T00:00:00.000Z'')]
                [cloneRun exampleDom 3 ''Texas''],
              Element None ''ins'' (Some wml_ns)
                [(''w:id'', ''2''), (''w:author'', authorName),
                 (''w:date'', ''2024-01-01T00:00:00.000Z'')]
                [cloneRun exampleDom 3 ''Delaware'']]
             (childNodesOf d' 2)
       | _ \<Rightarrow> False)"
proof -
  let ?t = "''2024-01-01T00:00:00.000Z''"
  let ?c = "exampleChange Delete ''Texas'' None"
  have c1: "ctype ?c = Some Delete" and c2: "match_new ?c = None"
    by (simp_all add: exampleChange_def)
  have c3: "toSuggestions ([] @ [exampleChange Replace ''30 days'' (Some ''60 days'')])
              = [suggest ''30 days'' ''60 days'']"
    by (simp add: toSuggestions_def toSuggestion_def exampleChange_def suggest_def)
  from markers_come_in_pairs[of ?c "[]" "[exampleChange Replace ''30 days'' (Some ''60 days'')]"]
    c1 c2 c3
  have dropped: "toSuggestions ([] @ ?c # [exampleChange Replace ''30 days'' (Some ''60 days'')])
       = [suggest ''30 days'' ''60 days'']" by simp
  have wf: "wellFormed exampleDom" by code_simp
  have r2: "findParentRun exampleDom 6 = Some 3" by code_simp
  have p2: "findParentParagraph exampleDom 3 = Some 2" by code_simp
  have k2: "childNodesOf exampleDom 2 = [] @ governingRun # [termRun]" by code_simp
  have n2: "nodeId governingRun = Some 3" by code_simp
  have i2: "indexOf ''Governing law: Texas.'' (original (suggest ''Texas'' ''Delaware'')) = Some 15"
    by code_simp
  have s1: "natToString (Suc 0) = ''1''" "natToString (Suc (Suc 0)) = ''2''" by code_simp+
  have "\<exists>d' before after.
             applySingleNodeChange exampleDom 6 ''Governing law: Texas.''
               (suggest ''Texas'' ''Delaware'') 1 authorName ?t = Inr (True, d')
             \<and> childNodesOf d' 2
                 = before
                   @ [Element None ''del'' (Some wml_ns)
                        [(''w:id'', natToString 1), (''w:author'', authorName), (''w:date'', ?t)]
                        [cloneRun exampleDom 3 (original (suggest ''Texas'' ''Delaware''))],
                      Element None ''ins'' (Some wml_ns)
                        [(''w:id'', natToString (1 + 1)), (''w:author'', authorName),
                         (''w:date'', ?t)]
                        [cloneRun exampleDom 3 (suggestion (suggest ''Texas'' ''Delaware''))]]
                   @ after"
    using markers_come_in_pairs[of _ _ _ exampleDom 6 3 2 "[]" governingRun "[termRun]"
      "''Governing law: Texas.''" "suggest ''Texas'' ''Delaware''" 15 1 authorName ?t]
      wf r2 p2 k2 n2 i2
    by blast
  then obtain d' before after where
    d': "applySingleNodeChange exampleDom 6 ''Governing law: Texas.''
           (suggest ''Texas'' ''Delaware'') 1 authorName ?t = Inr (True, d')"
        "childNodesOf d' 2
                 = before
                   @ [Element None ''del'' (Some wml_ns)
                        [(''w:id'', ''1''), (''w:author'', authorName), (''w:date'', ?t)]
                        [cloneRun exampleDom 3 ''Texas''],
                      Element None ''ins'' (Some wml_ns)
                        [(''w:id'', ''2''), (''w:author'', authorName), (''w:date'', ?t)]
                        [cloneRun exampleDom 3 ''Delaware'']]
                   @ after"
    using s1 by (auto simp: suggest_def)
  have "sublist
             [Element None ''del'' (Some wml_ns)
                [(''w:id'', ''1''), (''w:author'', authorName), (''w:date'', ?t)]
                [cloneRun exampleDom 3 ''Texas''],
              Element None ''ins'' (Some wml_ns)
                [(''w:id'', ''2''), (''w:author'', authorName), (''w:date'', ?t)]
                [cloneRun exampleDom 3 ''Delaware'']]
             (childNodesOf d' 2)"
    unfolding d'(2) by (rule sublist_appendI)
  with c1 c2 dropped wf r2 p2 k2 n2 i2 d'(1) show ?thesis by simp
qed

theorem markers_come_in_pairs_counterexample:
  "map_sum id documentMarkerKinds
     (POST (\<lambda>txt. [exampleChange Delete ''Texas'' None]) examplePackage
        ''2024-01-01T00:00:00.000Z'')
     = Inr []
   \<and> map_sum id documentMarkerKinds
       (POST (\<lambda>txt. [exampleChange Delete ''Texas'' (Some ''INTENTIONALLY OMITTED.'')])
          examplePackage ''2024-01-01T00:00:00.000Z'')
     = Inr [''del'', ''ins'']"
  by code_simp

end
